theory Spec2Isabelle
  imports Main "HOL-Library.Word"
begin

unbundle bit_operations_syntax

section \<open>Machine arithmetic\<close>

text \<open>
  The model is written for a platform where \<^verbatim>\<open>unsigned\<close> has 32 bits, \<^verbatim>\<open>unsigned long\<close>
  has 64 bits and \<^verbatim>\<open>float\<close> is IEEE-754 single precision. Unsigned values are natural
  numbers, and every operation that can leave the 32-bit range is wrapped by \<open>u32\<close>.
\<close>

definition u32 :: "nat \<Rightarrow> nat" where
  "u32 n = n mod 2 ^ 32"

text \<open>
  \<^verbatim>\<open>(float)n\<close> for an unsigned \<open>n\<close>: the nearest number with a 24-bit significand, ties
  to the even significand. \<open>float_exp n\<close> is the number of low bits that do not fit.
\<close>

fun float_exp :: "nat \<Rightarrow> nat" where
  "float_exp n = (if n < 2 ^ 24 then 0 else Suc (float_exp (n div 2)))"

definition to_float :: "nat \<Rightarrow> nat" where
  "to_float n =
     (let e = float_exp n; q = n div 2 ^ e; r = n mod 2 ^ e
      in if 2 * r < 2 ^ e \<or> (2 * r = 2 ^ e \<and> even q) then q * 2 ^ e else (q + 1) * 2 ^ e)"

text \<open>
  The macros \<^verbatim>\<open>CEIL_DIV(a,b) (float)(a+b-1)/(float)b\<close> and
  \<^verbatim>\<open>FLOOR_DIV(a,b) (float)a/(float)b\<close> of tree.h at their only use, \<open>b = 2\<close>, with the
  result stored in an \<^verbatim>\<open>unsigned\<close> (truncation). Halving is exact in binary floating point.
\<close>

definition CEIL_DIV2 :: "nat \<Rightarrow> nat" where
  "CEIL_DIV2 a = to_float (u32 (a + 2 - 1)) div 2"

definition FLOOR_DIV2 :: "nat \<Rightarrow> nat" where
  "FLOOR_DIV2 a = to_float a div 2"



section \<open>The partial sum-hierarchy tree (tree.h)\<close>

text \<open>
  A \<^verbatim>\<open>Node\<close> has both child pointers null (a leaf) or both set (an inner node);
  \<^verbatim>\<open>fill_tree\<close> builds no other shape. \<open>val\<close> is the field \<^verbatim>\<open>value\<close>.
\<close>

datatype node = Leaf (range_b: nat) (val: nat)
  | Inner (range_b: nat) (val: nat) (left: node) (right: node)

declare float_exp.simps [simp del]

lemma float_exp_small: "n < 2 ^ 24 \<Longrightarrow> float_exp n = 0"
  by (simp add: float_exp.simps)

lemma to_float_small: "n < 2 ^ 24 \<Longrightarrow> to_float n = n"
  by (simp add: to_float_def float_exp_small)


lemma float_exp_pow_le: "2 ^ float_exp n * 2 ^ 23 \<le> max n (2 ^ 23)"
proof (induction n rule: float_exp.induct)
  case (1 n)
  show ?case
  proof (cases "n < 2 ^ 24")
    case True
    then show ?thesis by (simp add: float_exp_small)
  next
    case False
    then have e: "float_exp n = Suc (float_exp (n div 2))"
      by (simp add: float_exp.simps)
    have "2 ^ float_exp (n div 2) * 2 ^ 23 \<le> max (n div 2) (2 ^ 23)"
      using 1 False by simp
    moreover have "2 ^ 23 \<le> n div 2" using False by simp
    ultimately have "2 ^ float_exp (n div 2) * 2 ^ 23 \<le> n div 2" by simp
    then have "2 * (2 ^ float_exp (n div 2) * 2 ^ 23) \<le> n" by simp
    then show ?thesis using e by simp
  qed
qed

lemma to_float_le: "to_float n \<le> n + n div 8388608"
proof (cases "n < 2 ^ 24")
  case True
  then show ?thesis by (simp add: to_float_small)
next
  case False
  define e where "e = float_exp n"
  have "2 ^ e * 2 ^ 23 \<le> max n (2 ^ 23)" unfolding e_def by (rule float_exp_pow_le)
  then have p: "(2::nat) ^ e * 8388608 \<le> n" using False by simp
  then have p': "(2::nat) ^ e \<le> n div 8388608"
    by (simp add: less_eq_div_iff_mult_less_eq)
  have q: "n div 2 ^ e * 2 ^ e \<le> n" by simp
  have "to_float n \<le> (n div 2 ^ e + 1) * 2 ^ e"
    by (simp add: to_float_def Let_def e_def [symmetric])
  also have "\<dots> = n div 2 ^ e * 2 ^ e + 2 ^ e" by (simp add: algebra_simps)
  also have "\<dots> \<le> n + n div 8388608" using q p' by (rule add_mono)
  finally show ?thesis .
qed

lemma CEIL_DIV2_less: "1 < sz \<Longrightarrow> CEIL_DIV2 sz < sz"
proof -
  assume a: "1 < sz"
  define m where "m = u32 (sz + 2 - 1)"
  have "m \<le> sz + 2 - 1" unfolding m_def u32_def by (rule mod_less_eq_dividend)
  then have m: "m \<le> sz + 1" by simp
  have "to_float m \<le> m + m div 8388608" by (rule to_float_le)
  then have "to_float m div 2 < sz" using m a by arith
  then show ?thesis unfolding CEIL_DIV2_def m_def [symmetric] .
qed

lemma FLOOR_DIV2_less: "1 < sz \<Longrightarrow> FLOOR_DIV2 sz < sz"
proof -
  assume a: "1 < sz"
  have "to_float sz \<le> sz + sz div 8388608" by (rule to_float_le)
  then have "to_float sz div 2 < sz" using a by arith
  then show ?thesis unfolding FLOOR_DIV2_def .
qed

function fill_tree :: "nat \<Rightarrow> nat \<Rightarrow> nat \<Rightarrow> node" where
  "fill_tree start sz level =
     (if sz > 1
      then let val_left = CEIL_DIV2 sz; val_right = FLOOR_DIV2 sz
           in Inner (u32 (u32 (start + sz) + 2 ^ 32 - 1)) 0
                (fill_tree start val_left (level + 1))
                (fill_tree (u32 (start + val_left)) val_right (level + 1))
      else Leaf (u32 (u32 (start + sz) + 2 ^ 32 - 1)) 0)"
  by pat_completeness auto
termination
  by (relation "measure (\<lambda>(start, sz, level). sz)")
     (auto simp: CEIL_DIV2_less FLOOR_DIV2_less)

declare fill_tree.simps [simp del]

text \<open>\<^verbatim>\<open>Tree(_size)\<close>: the root returned by \<^verbatim>\<open>fill_tree(0,_size,0)\<close>.\<close>

definition Tree :: "nat \<Rightarrow> node" where
  "Tree sz = fill_tree 0 sz 0"

text \<open>
  \<^verbatim>\<open>Tree::count\<close>: the loop runs while the node has children and a non-zero value;
  \<open>count_from\<close> is the loop with its accumulator \<open>result\<close>.
\<close>

fun count_from :: "node \<Rightarrow> nat \<Rightarrow> nat \<Rightarrow> nat" where
  "count_from (Leaf b v) target result = result"
| "count_from (Inner b v l r) target result =
     (if v \<noteq> 0
      then (if target > range_b l then count_from r target result
            else count_from l target (u32 (result + val r)))
      else result)"

definition count :: "node \<Rightarrow> nat \<Rightarrow> nat" where
  "count root target = count_from root target 0"

text \<open>\<^verbatim>\<open>Tree::set\<close> and \<^verbatim>\<open>Tree::unset\<close>; the decrement of an unsigned 0 wraps.\<close>

fun tree_set :: "node \<Rightarrow> nat \<Rightarrow> node" where
  "tree_set (Leaf b v) target = Leaf b 1"
| "tree_set (Inner b v l r) target =
     (if target > range_b l then Inner b (u32 (v + 1)) l (tree_set r target)
      else Inner b (u32 (v + 1)) (tree_set l target) r)"

fun tree_unset :: "node \<Rightarrow> nat \<Rightarrow> node" where
  "tree_unset (Leaf b v) target = Leaf b 0"
| "tree_unset (Inner b v l r) target =
     (if target > range_b l then Inner b (u32 (v + 2 ^ 32 - 1)) l (tree_unset r target)
      else Inner b (u32 (v + 2 ^ 32 - 1)) (tree_unset l target) r)"

text \<open>
  \<open>repr t start sz S\<close>: \<open>t\<close> is the tree over the index range \<open>[start, start + sz)\<close>, split
  at \<open>ceil (sz / 2)\<close>, whose leaves hold 1 exactly at the indices in \<open>S\<close> and whose inner nodes
  hold the number of marked leaves below them.
\<close>

fun repr :: "node \<Rightarrow> nat \<Rightarrow> nat \<Rightarrow> nat set \<Rightarrow> bool" where
  "repr (Leaf b v) start sz S = (sz = 1 \<and> b = start \<and> v = (if start \<in> S then 1 else 0))"
| "repr (Inner b v l r) start sz S =
     (1 < sz \<and> b = start + sz - 1 \<and> v = card (S \<inter> {start..<start + sz}) \<and>
      repr l start ((sz + 1) div 2) S \<and> repr r (start + (sz + 1) div 2) (sz div 2) S)"

text \<open>
  Sequences of \<^verbatim>\<open>set\<close>/\<^verbatim>\<open>unset\<close> calls, the set of indices they leave marked, and
  their validity: \<^verbatim>\<open>set\<close> only on an unmarked index, \<^verbatim>\<open>unset\<close> only on a marked one,
  both below the size the tree was created with.
\<close>

datatype tree_op = Op_set nat | Op_unset nat


fun marked :: "nat set \<Rightarrow> tree_op list \<Rightarrow> nat set" where
  "marked S [] = S"
| "marked S (Op_set i # ops) = marked (insert i S) ops"
| "marked S (Op_unset i # ops) = marked (S - {i}) ops"

fun valid_ops :: "nat \<Rightarrow> nat set \<Rightarrow> tree_op list \<Rightarrow> bool" where
  "valid_ops sz S [] = True"
| "valid_ops sz S (Op_set i # ops) = (i < sz \<and> i \<notin> S \<and> valid_ops sz (insert i S) ops)"
| "valid_ops sz S (Op_unset i # ops) = (i < sz \<and> i \<in> S \<and> valid_ops sz (S - {i}) ops)"

text \<open>
  The layout of section 4.1 of the specification, as worded: an inner node over
  \<open>[start, start + sz)\<close> stores \<open>range_b = start + ceil (sz / 2) - 1\<close>.
\<close>

fun spec_node :: "node \<Rightarrow> nat \<Rightarrow> nat \<Rightarrow> bool" where
  "spec_node (Leaf b v) start sz = (sz \<le> 1)"
| "spec_node (Inner b v l r) start sz =
     (1 < sz \<and> b = start + (sz + 1) div 2 - 1 \<and>
      spec_node l start ((sz + 1) div 2) \<and> spec_node r (start + (sz + 1) div 2) (sz div 2))"

text \<open>
  The layout \<^verbatim>\<open>fill_tree\<close> builds: every node stores the last index of its own range, so the
  largest index of the left subtree is read from the left child, as \<^verbatim>\<open>count\<close>, \<^verbatim>\<open>set\<close> and
  \<^verbatim>\<open>unset\<close> do (\<^verbatim>\<open>node->left->range_b\<close>).
\<close>

fun code_node :: "node \<Rightarrow> nat \<Rightarrow> nat \<Rightarrow> bool" where
  "code_node (Leaf b v) start sz = (sz \<le> 1)"
| "code_node (Inner b v l r) start sz =
     (1 < sz \<and> b = start + sz - 1 \<and> range_b l = start + (sz + 1) div 2 - 1 \<and>
      code_node l start ((sz + 1) div 2) \<and> code_node r (start + (sz + 1) div 2) (sz div 2))"

text \<open>
  Above \<open>2 ^ 24\<close> the two halves computed by \<^verbatim>\<open>fill_tree\<close> need not add up to the size, so
  a tree is also described by what \<^verbatim>\<open>count\<close>, \<^verbatim>\<open>set\<close> and \<^verbatim>\<open>unset\<close> read from it, the
  \<open>range_b\<close> of left children. \<open>span t start\<close> is the number of indices from \<open>start\<close> on that
  have a leaf of their own in \<open>t\<close>: an inner node sends the indices up to the \<open>range_b\<close> of its
  left child to the left and the others to the right. \<open>cov t start S\<close>: the left child of every
  inner node has a leaf for each index sent to it, the leaves hold 1 exactly at the indices of
  \<open>S\<close> they serve, and every inner node holds the number of indices of \<open>S\<close> it serves.
  \<open>tree_capacity sz\<close> is the number of indices of \<open>Tree sz\<close> that have a leaf of their own, as far
  as the two halves of the root tell. \<open>rep x\<close>: \<open>x\<close> has a significand of at most 24 bits.
\<close>

fun span :: "node \<Rightarrow> nat \<Rightarrow> nat" where
  "span (Leaf b v) start = 1"
| "span (Inner b v l r) start = range_b l + 1 - start + span r (range_b l + 1)"




subsection \<open>Properties of the tree\<close>

lemma to_float_exact: "n \<le> 2 ^ 24 \<Longrightarrow> to_float n = n"
proof (cases "n < 2 ^ 24")
  case True
  then show ?thesis by (rule to_float_small)
next
  case False
  assume "n \<le> 2 ^ 24"
  with False have "n = 16777216" by simp
  then show ?thesis by (simp add: to_float_def float_exp.simps)
qed

lemma CEIL_DIV2_exact: "sz \<le> 2 ^ 24 \<Longrightarrow> CEIL_DIV2 sz = (sz + 1) div 2"
proof (cases "sz < 2 ^ 24")
  case True
  then show ?thesis by (simp add: CEIL_DIV2_def u32_def to_float_exact)
next
  case False
  assume "sz \<le> 2 ^ 24"
  with False have "sz = 16777216" by simp
  then show ?thesis by (simp add: CEIL_DIV2_def u32_def to_float_def float_exp.simps)
qed

lemma FLOOR_DIV2_exact: "sz \<le> 2 ^ 24 \<Longrightarrow> FLOOR_DIV2 sz = sz div 2"
  by (simp add: FLOOR_DIV2_def to_float_exact)

lemma u32_pred: "0 < sz \<Longrightarrow> start + sz \<le> 2 ^ 32 \<Longrightarrow> u32 (u32 (start + sz) + 2 ^ 32 - 1) = start + sz - 1"
proof (cases "start + sz = 2 ^ 32")
  case True
  then show ?thesis by (simp add: u32_def)
next
  case False
  assume "0 < sz" "start + sz \<le> 2 ^ 32"
  with False have lt: "start + sz < 2 ^ 32" by simp
  then have "u32 (start + sz) = start + sz" by (simp add: u32_def)
  moreover have "(start + sz + 2 ^ 32 - 1) mod 2 ^ 32 = start + sz - 1"
    using lt \<open>0 < sz\<close> by (simp add: mod_if)
  ultimately show ?thesis by (simp add: u32_def)
qed

lemma repr_range_b: "repr t start sz S \<Longrightarrow> range_b t = start + sz - 1"
  by (cases t) auto

lemma Int_cover_eq: "S \<inter> A = S' \<inter> A \<Longrightarrow> B \<subseteq> A \<Longrightarrow> S \<inter> B = S' \<inter> B"
  by blast

lemma repr_cong:
  "repr t start sz S \<Longrightarrow> S \<inter> {start..<start + sz} = S' \<inter> {start..<start + sz} \<Longrightarrow> repr t start sz S'"
proof (induction t arbitrary: start sz)
  case (Leaf b v)
  from Leaf have "sz = 1" by simp
  with Leaf.prems(2) have "(start \<in> S) = (start \<in> S')" by auto
  with Leaf.prems(1) show ?case by simp
next
  case (Inner b v l r)
  let ?c = "(sz + 1) div 2"
  from Inner.prems have sz: "1 < sz" by simp
  have "{start..<start + ?c} \<subseteq> {start..<start + sz}" using sz by auto
  then have l: "S \<inter> {start..<start + ?c} = S' \<inter> {start..<start + ?c}"
    by (rule Int_cover_eq [OF Inner.prems(2)])
  have "?c + sz div 2 = sz" by presburger
  then have "{start + ?c..<start + ?c + sz div 2} \<subseteq> {start..<start + sz}" by auto
  then have r: "S \<inter> {start + ?c..<start + ?c + sz div 2} = S' \<inter> {start + ?c..<start + ?c + sz div 2}"
    by (rule Int_cover_eq [OF Inner.prems(2)])
  have "repr l start ?c S'" using Inner.prems(1) l by (auto intro: Inner.IH(1))
  moreover have "repr r (start + ?c) (sz div 2) S'" using Inner.prems(1) r by (auto intro: Inner.IH(2))
  ultimately show ?case using Inner.prems by simp
qed

lemma fill_tree_repr:
  "0 < sz \<Longrightarrow> sz \<le> 2 ^ 24 \<Longrightarrow> start + sz \<le> 2 ^ 32 \<Longrightarrow> repr (fill_tree start sz level) start sz {}"
proof (induction start sz level rule: fill_tree.induct)
  case (1 start sz level)
  show ?case
  proof (cases "1 < sz")
    case False
    with "1.prems" have "sz = 1" by simp
    then show ?thesis using "1.prems" u32_pred [of 1 start]
      by (simp add: fill_tree.simps)
  next
    case True
    let ?c = "(sz + 1) div 2"
    have c: "CEIL_DIV2 sz = ?c" and f: "FLOOR_DIV2 sz = sz div 2"
      using "1.prems" by (simp_all add: CEIL_DIV2_exact FLOOR_DIV2_exact)
    have s: "u32 (start + ?c) = start + ?c" using "1.prems" True by (simp add: u32_def)
    have "repr (fill_tree start ?c (level + 1)) start ?c {}"
      using "1.IH"(1) [OF True c [symmetric] f [symmetric]] "1.prems" True by simp
    moreover have "repr (fill_tree (start + ?c) (sz div 2) (level + 1)) (start + ?c) (sz div 2) {}"
      using "1.IH"(2) [OF True c [symmetric] f [symmetric]] "1.prems" True s by simp
    ultimately show ?thesis
      using True "1.prems" u32_pred [of sz start]
      by (subst fill_tree.simps) (simp add: c f s s [simplified] Let_def)
  qed
qed




lemma card_cover_le: "card (S \<inter> {start::nat..<start + sz}) \<le> sz"
proof -
  have "card (S \<inter> {start..<start + sz}) \<le> card {start..<start + sz}"
    by (rule card_mono) auto
  then show ?thesis by simp
qed

lemma card_cover_insert:
  "start \<le> (i::nat) \<Longrightarrow> i < start + sz \<Longrightarrow> i \<notin> S \<Longrightarrow>
   card (insert i S \<inter> {start..<start + sz}) = Suc (card (S \<inter> {start..<start + sz}))"
proof -
  assume a: "start \<le> i" "i < start + sz" "i \<notin> S"
  then have "insert i S \<inter> {start..<start + sz} = insert i (S \<inter> {start..<start + sz})" by auto
  moreover have "finite (S \<inter> {start..<start + sz})" by simp
  moreover have "i \<notin> S \<inter> {start..<start + sz}" using a by simp
  ultimately show ?thesis by simp
qed

lemma card_cover_remove:
  "start \<le> (i::nat) \<Longrightarrow> i < start + sz \<Longrightarrow> i \<in> S \<Longrightarrow>
   Suc (card ((S - {i}) \<inter> {start..<start + sz})) = card (S \<inter> {start..<start + sz})"
proof -
  assume a: "start \<le> i" "i < start + sz" "i \<in> S"
  have "i \<notin> S - {i}" by simp
  from card_cover_insert [OF a(1) a(2) this] have
    "card (insert i (S - {i}) \<inter> {start..<start + sz}) = Suc (card ((S - {i}) \<inter> {start..<start + sz}))" .
  moreover have "insert i (S - {i}) = S" using a(3) by auto
  ultimately show ?thesis by simp
qed


lemma tree_unset_repr:
  "repr t start sz S \<Longrightarrow> start \<le> i \<Longrightarrow> i < start + sz \<Longrightarrow> i \<in> S \<Longrightarrow> sz < 2 ^ 32 \<Longrightarrow>
   repr (tree_unset t i) start sz (S - {i})"
proof (induction t arbitrary: start sz)
  case (Leaf b v)
  then show ?case by auto
next
  case (Inner b v l r)
  let ?c = "(sz + 1) div 2"
  from Inner.prems(1) have sz: "1 < sz" and b: "b = start + sz - 1"
    and v: "v = card (S \<inter> {start..<start + sz})"
    and l: "repr l start ?c S" and r: "repr r (start + ?c) (sz div 2) S" by simp_all
  have sum: "?c + sz div 2 = sz" by presburger
  have rb: "range_b l = start + ?c - 1" using l by (rule repr_range_b)
  have cpos: "0 < ?c" using sz by simp
  have sv: "Suc (card ((S - {i}) \<inter> {start..<start + sz})) = v"
    unfolding v using Inner.prems(2,3,4) by (rule card_cover_remove)
  have "v \<le> sz" unfolding v by (rule card_cover_le)
  with sv [symmetric] have v': "u32 (v + 2 ^ 32 - 1) = card ((S - {i}) \<inter> {start..<start + sz})"
    using Inner.prems(5) by (simp add: u32_def mod_if)
  show ?case
  proof (cases "range_b l < i")
    case True
    then have i: "start + ?c \<le> i" using rb cpos by simp
    have "i < start + ?c + sz div 2" using Inner.prems(3) sum by simp
    from Inner.IH(2) [OF r i this Inner.prems(4)] Inner.prems(5)
    have "repr (tree_unset r i) (start + ?c) (sz div 2) (S - {i})" by simp
    moreover have "repr l start ?c (S - {i})"
      using l by (rule repr_cong) (use i in auto)
    ultimately show ?thesis using True sz b v' by simp
  next
    case False
    then have i: "i < start + ?c" using rb cpos by simp
    from Inner.IH(1) [OF l Inner.prems(2) i Inner.prems(4)] Inner.prems(5) sz
    have "repr (tree_unset l i) start ?c (S - {i})" by simp
    moreover have "repr r (start + ?c) (sz div 2) (S - {i})"
      using r by (rule repr_cong) (use i in auto)
    ultimately show ?thesis using False sz b v' by simp
  qed
qed


lemma Tree_repr: "0 < sz \<Longrightarrow> sz \<le> 2 ^ 24 \<Longrightarrow> repr (Tree sz) 0 sz {}"
  unfolding Tree_def by (rule fill_tree_repr) simp_all



lemma value_fill_tree: "val (fill_tree start sz level) = 0"
  by (subst fill_tree.simps) (simp add: Let_def)

lemma repr_code_node: "repr t start sz S \<Longrightarrow> code_node t start sz"
proof (induction t arbitrary: start sz)
  case (Leaf b v)
  then show ?case by simp
next
  case (Inner b v l r)
  then show ?case using repr_range_b [of l start "(sz + 1) div 2" S] by simp
qed

lemma Tree_two: "Tree 2 = Inner 1 0 (Leaf 0 0) (Leaf 1 0)"
  by (simp add: Tree_def fill_tree.simps CEIL_DIV2_def FLOOR_DIV2_def u32_def to_float_small)

text \<open>
  C7, as stated, fails: the root of \<open>Tree 2\<close> covers \<open>[0, 2)\<close> and stores \<open>range_b = 1\<close>, not
  \<open>0 + ceil (2 / 2) - 1 = 0\<close>.
\<close>

theorem tree_range_b_spec_counterexample: "\<not> spec_node (Tree 2) 0 2"
  by (simp add: Tree_two)

text \<open>
  C7 (amended): in the tree built by \<open>Tree sz\<close>, for \<open>sz\<close> up to \<open>2 ^ 24\<close>, every inner node
  over \<open>[start, start + size)\<close> stores \<open>range_b = start + size - 1\<close>, its left child stores
  \<open>start + ceil (size / 2) - 1\<close>, and its children cover \<open>(start, ceil (size / 2))\<close> and
  \<open>(start + ceil (size / 2), floor (size / 2))\<close>.
\<close>

theorem tree_nodes_cover: "sz \<le> 2 ^ 24 \<Longrightarrow> code_node (Tree sz) 0 sz"
proof (cases "sz = 0")
  case True
  then show ?thesis by (simp add: Tree_def fill_tree.simps)
next
  case False
  assume "sz \<le> 2 ^ 24"
  with False have "repr (Tree sz) 0 sz {}" by (intro Tree_repr) simp_all
  then show ?thesis by (rule repr_code_node)
qed

theorem tree_nodes_cover_witness: "(2::nat) \<le> 2 ^ 24 \<and> code_node (Tree 2) 0 2 \<and> Tree 2 = Inner 1 0 (Leaf 0 0) (Leaf 1 0)"
  using tree_nodes_cover [of 2] by (simp add: Tree_two)



subsection \<open>Trees of any size\<close>


lemma float_exp_eqI:
  "2 ^ e * 2 ^ 23 \<le> n \<Longrightarrow> n < 2 ^ e * 2 ^ 24 \<Longrightarrow> float_exp n = e"
proof (induction n arbitrary: e rule: float_exp.induct)
  case (1 n)
  show ?case
  proof (cases "n < 2 ^ 24")
    case True
    have "e = 0"
    proof (rule ccontr)
      assume "e \<noteq> 0"
      then obtain e' where "e = Suc e'" by (cases e) auto
      then have "(2::nat) * 2 ^ 23 \<le> 2 ^ e * 2 ^ 23" by simp
      with "1.prems"(1) True show False by simp
    qed
    then show ?thesis using True by (simp add: float_exp_small)
  next
    case False
    then have fe: "float_exp n = Suc (float_exp (n div 2))" by (simp add: float_exp.simps)
    have "e \<noteq> 0" using False "1.prems"(2) by (cases e) auto
    then obtain e' where e: "e = Suc e'" by (cases e) auto
    have "2 ^ e' * 2 ^ 23 \<le> n div 2" using "1.prems"(1) e by simp
    moreover have "n div 2 < 2 ^ e' * 2 ^ 24" using "1.prems"(2) e by simp
    ultimately have "float_exp (n div 2) = e'" using "1.IH" False by simp
    then show ?thesis using fe e by simp
  qed
qed








lemma range_b_tree_set [simp]: "range_b (tree_set t i) = range_b t"
  by (cases t) auto

lemma range_b_tree_unset [simp]: "range_b (tree_unset t i) = range_b t"
  by (cases t) auto

lemma span_tree_set [simp]: "span (tree_set t i) start = span t start"
  by (induction t arbitrary: start) auto

lemma span_tree_unset [simp]: "span (tree_unset t i) start = span t start"
  by (induction t arbitrary: start) auto

lemma span_pos: "0 < span t start"
  by (induction t arbitrary: start) auto


















declare span.simps(2) [simp del]







lemma valid_ops_marked: "valid_ops n S ops \<Longrightarrow> S \<subseteq> {0..<n} \<Longrightarrow> marked S ops \<subseteq> {0..<n}"
proof (induction ops arbitrary: S)
  case Nil
  then show ?case by simp
next
  case (Cons x ops)
  then show ?case by (cases x) auto
qed




section \<open>Errors and constants (model.h)\<close>

text \<open>
  A failed \<^verbatim>\<open>assert\<close>, a division by zero and a read outside a vector end the program;
  in the model they are error values. \<open>INF_dist\<close> is the macro \<^verbatim>\<open>INF\<close>.
\<close>

datatype error = Assertion_failed | Division_by_zero | Out_of_bounds

definition INF_dist :: nat where
  "INF_dist = 99999999"

section \<open>Cache-line address to set mapping (associativity.cpp)\<close>

definition MAPPING_TYPE :: nat where
  "MAPPING_TYPE = 2"

text \<open>The loop filling \<^verbatim>\<open>bits\<close>: \<open>addr_bits n a\<close> are its next \<open>n\<close> entries.\<close>

fun addr_bits :: "nat \<Rightarrow> nat \<Rightarrow> nat list" where
  "addr_bits 0 addr_copy = []"
| "addr_bits (Suc n) addr_copy =
     (if addr_copy \<noteq> 0 then addr_copy mod 2 # addr_bits n (addr_copy div 2)
      else 0 # addr_bits n addr_copy)"

definition line_addr_to_set :: "nat \<Rightarrow> nat \<Rightarrow> nat \<Rightarrow> nat \<Rightarrow> error + nat" where
  "line_addr_to_set line_addr addr num_sets cache_bytes =
     (let bits = addr_bits 32 line_addr
      in if MAPPING_TYPE = 0
         then (if num_sets = 0 then Inl Division_by_zero
               else Inr (u32 (line_addr mod num_sets) mod num_sets))
         else if MAPPING_TYPE = 1
         then (if num_sets = 0 then Inl Division_by_zero
               else Inr (u32 ((line_addr mod num_sets) XOR ((line_addr div num_sets) mod num_sets))
                           mod num_sets))
         else if MAPPING_TYPE = 2
         then (let b01234 = bits ! 0 + bits ! 1 * 2 + bits ! 2 * 4 + bits ! 3 * 8 + bits ! 4 * 16;
                   b678AC = bits ! 6 + bits ! 7 * 2 + bits ! 8 * 4 + bits ! 10 * 8 + bits ! 12 * 16
               in if \<not> b01234 < 32 then Inl Assertion_failed
                  else if \<not> b678AC < 32 then Inl Assertion_failed
                  else let set_idx = (b01234 XOR b678AC) + bits ! 5 * 32
                       in if num_sets = 0 then Inl Division_by_zero else Inr (set_idx mod num_sets))
         else (if num_sets = 0 then Inl Division_by_zero else Inr (0 mod num_sets)))"

text \<open>
  The hash of section 4.2 of the specification: \<open>addr_bit a i\<close> is bit \<open>i\<close> of \<open>a\<close>, least
  significant first.
\<close>

definition addr_bit :: "nat \<Rightarrow> nat \<Rightarrow> nat" where
  "addr_bit line_addr i = (line_addr div 2 ^ i) mod 2"

definition fermi_hash :: "nat \<Rightarrow> nat" where
  "fermi_hash line_addr =
     (let b = addr_bit line_addr;
          g1 = b 0 + 2 * b 1 + 4 * b 2 + 8 * b 3 + 16 * b 4;
          g2 = b 6 + 2 * b 7 + 4 * b 8 + 8 * b 10 + 16 * b 12
      in (g1 XOR g2) + 32 * b 5)"

lemma addr_bits_zero: "i < n \<Longrightarrow> addr_bits n 0 ! i = 0"
  by (induction n arbitrary: i) (auto simp: nth_Cons split: nat.splits)

lemma addr_bits_nth: "i < n \<Longrightarrow> addr_bits n a ! i = addr_bit a i"
proof (induction n arbitrary: a i)
  case 0
  then show ?case by simp
next
  case (Suc n)
  show ?case
  proof (cases i)
    case 0
    then show ?thesis by (simp add: addr_bit_def)
  next
    case (Suc j)
    with Suc.prems have j: "j < n" by simp
    have "addr_bit a (Suc j) = addr_bit (a div 2) j"
      by (simp add: addr_bit_def div_mult2_eq)
    then show ?thesis using Suc.IH [OF j] Suc addr_bits_zero [OF j]
      by (simp add: addr_bit_def)
  qed
qed

lemma addr_bit_le: "addr_bit a i \<le> 1"
  by (simp add: addr_bit_def)

lemma group_bound:
  "a \<le> 1 \<Longrightarrow> b \<le> 1 \<Longrightarrow> c \<le> 1 \<Longrightarrow> d \<le> 1 \<Longrightarrow> e \<le> 1 \<Longrightarrow> a + b * 2 + c * 4 + d * 8 + e * 16 < (32::nat)"
  by simp

lemma line_addr_to_set_Inr:
  assumes "0 < num_sets"
  shows "line_addr_to_set line_addr a num_sets cb = Inr (fermi_hash line_addr mod num_sets)"
proof -
  let ?b = "addr_bit line_addr"
  have g1: "?b 0 + ?b 1 * 2 + ?b 2 * 4 + ?b 3 * 8 + ?b 4 * 16 < 32"
    by (intro group_bound addr_bit_le)
  have g2: "?b 6 + ?b 7 * 2 + ?b 8 * 4 + ?b 10 * 8 + ?b 12 * 16 < 32"
    by (intro group_bound addr_bit_le)
  show ?thesis
    using assms g1 g2
    by (simp add: line_addr_to_set_def MAPPING_TYPE_def Let_def addr_bits_nth fermi_hash_def mult.commute)
qed

lemma line_addr_to_set_one: "line_addr_to_set line_addr a (Suc 0) cb = Inr 0"
  by (simp add: line_addr_to_set_Inr)

text \<open>
  C8: with a positive number of sets, \<open>line_addr_to_set\<close> in Fermi mode returns
  \<open>((g1 XOR g2) + 32 * b5) mod num_sets\<close>, whatever \<open>addr\<close> and \<open>cache_bytes\<close> are; the result is
  below \<open>num_sets\<close>, and with one set it is 0.
\<close>

theorem line_addr_to_set_fermi:
  assumes "0 < num_sets"
  shows "line_addr_to_set line_addr addr num_sets cache_bytes = Inr (fermi_hash line_addr mod num_sets)
    \<and> fermi_hash line_addr mod num_sets < num_sets
    \<and> (num_sets = 1 \<longrightarrow> line_addr_to_set line_addr addr num_sets cache_bytes = Inr 0)"
  using assms line_addr_to_set_Inr [of num_sets line_addr addr cache_bytes] by auto

theorem line_addr_to_set_fermi_witness:
  "(0::nat) < 32 \<and> line_addr_to_set 4133 529024 32 16384 = Inr 21 \<and> fermi_hash 4133 mod 32 = 21"
  using line_addr_to_set_fermi [of 32 4133 529024 16384]
  by (simp add: fermi_hash_def addr_bit_def)


section \<open>Accesses and threads (model.h)\<close>

record Access =
  direction :: nat
  address :: nat
  width :: nat
  bytes :: nat
  end_address :: nat

record Thread =
  warpid :: nat
  blockid :: nat
  pc :: "32 word"
  accesses :: "Access list"

text \<open>
  \<^verbatim>\<open>Thread::schedule\<close> increments the program counter and asserts that the access read is
  inside the vector; \<^verbatim>\<open>Thread::unschedule\<close> asserts a positive counter and decrements it.
\<close>

definition schedule :: "Thread \<Rightarrow> error + Access \<times> Thread" where
  "schedule t =
     (let pc' = pc t + 1
      in if unat (pc' - 1) < length (accesses t)
         then Inr (accesses t ! unat (pc' - 1), t\<lparr>pc := pc'\<rparr>)
         else Inl Assertion_failed)"

definition unschedule :: "Thread \<Rightarrow> error + Thread" where
  "unschedule t = (if pc t > 0 then Inr (t\<lparr>pc := pc t - 1\<rparr>) else Inl Assertion_failed)"

text \<open>
  C9: for a thread with a positive program counter, \<open>unschedule\<close> decrements the counter by
  one; when the thread is the result of a \<open>schedule\<close>, \<open>unschedule\<close> gives back the thread as it
  was before, and scheduling that thread returns the same access again.
\<close>

theorem unschedule_rewinds:
  assumes "0 < pc t"
  shows "unschedule t = Inr (t\<lparr>pc := pc t - 1\<rparr>) \<and>
    (\<forall>s a. schedule s = Inr (a, t) \<longrightarrow>
       unschedule t = Inr s \<and> schedule (t\<lparr>pc := pc t - 1\<rparr>) = Inr (a, t))"
proof -
  have u: "unschedule t = Inr (t\<lparr>pc := pc t - 1\<rparr>)" using assms by (simp add: unschedule_def)
  have "unschedule t = Inr s \<and> schedule (t\<lparr>pc := pc t - 1\<rparr>) = Inr (a, t)"
    if "schedule s = Inr (a, t)" for s a
  proof -
    from that have "t = s\<lparr>pc := pc s + 1\<rparr>"
      by (auto simp: schedule_def Let_def split: if_splits)
    then have "t\<lparr>pc := pc t - 1\<rparr> = s" by simp
    then show ?thesis using u that by simp
  qed
  then show ?thesis using u by blast
qed

theorem unschedule_rewinds_witness:
  "(0::32 word) < pc \<lparr>warpid = 0, blockid = 0, pc = 1,
       accesses = [\<lparr>direction = 0, address = 64, width = 1, bytes = 4, end_address = 67\<rparr>]\<rparr> \<and>
   schedule \<lparr>warpid = 0, blockid = 0, pc = 0,
       accesses = [\<lparr>direction = 0, address = 64, width = 1, bytes = 4, end_address = 67\<rparr>]\<rparr>
     = Inr (\<lparr>direction = 0, address = 64, width = 1, bytes = 4, end_address = 67\<rparr>,
            \<lparr>warpid = 0, blockid = 0, pc = 1,
       accesses = [\<lparr>direction = 0, address = 64, width = 1, bytes = 4, end_address = 67\<rparr>]\<rparr>) \<and>
   unschedule \<lparr>warpid = 0, blockid = 0, pc = 1,
       accesses = [\<lparr>direction = 0, address = 64, width = 1, bytes = 4, end_address = 67\<rparr>]\<rparr>
     = Inr \<lparr>warpid = 0, blockid = 0, pc = 0,
       accesses = [\<lparr>direction = 0, address = 64, width = 1, bytes = 4, end_address = 67\<rparr>]\<rparr>"
  using unschedule_rewinds [of "\<lparr>warpid = 0, blockid = 0, pc = 1,
       accesses = [\<lparr>direction = 0, address = 64, width = 1, bytes = 4, end_address = 67\<rparr>]\<rparr>"]
  by (simp add: schedule_def)

section \<open>Outstanding requests (model.h)\<close>

text \<open>
  \<^verbatim>\<open>request_list\<close> is a \<^verbatim>\<open>std::map\<close> read with \<^verbatim>\<open>operator[]\<close>, so a missing key is an empty
  vector. \<^verbatim>\<open>unique_requests\<close> is a \<^verbatim>\<open>std::set<unsigned>\<close>: the 64-bit address is truncated
  when it is inserted or erased. \<open>req_set\<close> is the field \<^verbatim>\<open>set\<close>.
\<close>

record Request =
  addr :: nat
  req_set :: nat

record Requests =
  request_list :: "nat \<Rightarrow> Request list"
  unique_requests :: "nat set"

definition Requests_init :: Requests where
  "Requests_init = \<lparr>request_list = (\<lambda>_. []), unique_requests = {}\<rparr>"

definition add :: "Requests \<Rightarrow> nat \<Rightarrow> nat \<Rightarrow> nat \<Rightarrow> Requests" where
  "add r a future_time s =
     r\<lparr>request_list := (request_list r)
          (future_time := request_list r future_time @ [\<lparr>addr = a, req_set = s\<rparr>]),
       unique_requests := insert (u32 a) (unique_requests r)\<rparr>"

definition get_num_requests :: "Requests \<Rightarrow> nat" where
  "get_num_requests r = u32 (card (unique_requests r))"

definition has_requests :: "Requests \<Rightarrow> nat \<Rightarrow> bool" where
  "has_requests r current_time = (length (request_list r current_time) > 0)"

definition get_requests :: "Requests \<Rightarrow> nat \<Rightarrow> Request list \<times> Requests" where
  "get_requests r current_time =
     (let current = request_list r current_time
      in (current,
          r\<lparr>unique_requests := fold (\<lambda>request u. u - {u32 (addr request)}) current (unique_requests r),
            request_list := (request_list r)(current_time := [])\<rparr>))"

text \<open>
  C10: after two \<open>add\<close>s of the same address at different times the address counts once;
  after \<open>get_requests\<close> at the first time it counts zero, although the request at the second
  time is still queued.
\<close>

theorem requests_shared_address:
  assumes "t1 \<noteq> t2"
  shows "get_num_requests (add (add Requests_init a t1 s) a t2 s) = 1 \<and>
    get_num_requests (snd (get_requests (add (add Requests_init a t1 s) a t2 s) t1)) = 0 \<and>
    request_list (snd (get_requests (add (add Requests_init a t1 s) a t2 s) t1)) t2
      = [\<lparr>addr = a, req_set = s\<rparr>]"
  using assms
  by (simp add: get_num_requests_def get_requests_def add_def Requests_init_def u32_def Let_def)

theorem requests_shared_address_witness:
  "(1::nat) \<noteq> 2 \<and> get_num_requests (add (add Requests_init 7 1 0) 7 2 0) = 1 \<and>
   get_num_requests (snd (get_requests (add (add Requests_init 7 1 0) 7 2 0) 1)) = 0 \<and>
   request_list (snd (get_requests (add (add Requests_init 7 1 0) 7 2 0) 1)) 2 = [\<lparr>addr = 7, req_set = 0\<rparr>]"
  using requests_shared_address [of 1 2 7 0] by simp

section \<open>Thread helpers, warp pool and engine state (model.h, reusedistance.cpp)\<close>

record Settings =
  line_size :: nat
  cache_bytes :: nat
  cache_lines :: nat
  cache_ways :: nat
  cache_sets :: nat
  num_mshr :: nat
  num_cores :: nat
  warp_size :: nat
  max_active_threads :: nat
  max_active_blocks :: nat
  mem_latency :: nat
  mem_latency_stddev :: nat

text \<open>
  The arguments of \<^verbatim>\<open>reuse_distance\<close> that differ between the four runs of the classifier:
  \<^verbatim>\<open>cache_sets\<close>, \<^verbatim>\<open>cache_ways\<close>, \<^verbatim>\<open>mem_latency\<close>, \<^verbatim>\<open>non_mem_latency\<close> and \<^verbatim>\<open>num_mshr\<close>.
\<close>

record Config =
  cfg_sets :: nat
  cfg_ways :: nat
  cfg_mem_latency :: nat
  cfg_non_mem_latency :: nat
  cfg_num_mshr :: nat

definition STACK_EXTRA_SIZE :: nat where
  "STACK_EXTRA_SIZE = 256"

definition is_done :: "Thread \<Rightarrow> bool" where
  "is_done t = (unat (pc t) = length (accesses t))"

definition get_bytes :: "Thread \<Rightarrow> error + nat" where
  "get_bytes t =
     (if unat (pc t) = length (accesses t) then Inr 1
      else if unat (pc t) < length (accesses t) then Inr (bytes (accesses t ! unat (pc t)))
      else Inl Out_of_bounds)"

definition reset :: "Thread \<Rightarrow> Thread" where
  "reset t = t\<lparr>pc := 0\<rparr>"

text \<open>
  \<^verbatim>\<open>Pool\<close>: \<open>pool_warps\<close> is the vector \<^verbatim>\<open>warps\<close>, \<open>pool_size\<close> and \<open>pool_done\<close> are \<^verbatim>\<open>size\<close> and
  \<^verbatim>\<open>done\<close>. \<^verbatim>\<open>in_flight\<close> is a \<^verbatim>\<open>std::map\<close>, kept here as a list of pairs in ascending key
  order, the order in which \<^verbatim>\<open>process_warps_in_flight\<close> walks it.
\<close>

record Pool =
  pool_warps :: "nat list"
  in_flight :: "(nat \<times> nat) list"
  pool_size :: nat
  pool_done :: nat

definition Pool_init :: Pool where
  "Pool_init = \<lparr>pool_warps = [], in_flight = [], pool_size = 0, pool_done = 0\<rparr>"

fun in_flight_put :: "nat \<Rightarrow> nat \<Rightarrow> (nat \<times> nat) list \<Rightarrow> (nat \<times> nat) list" where
  "in_flight_put w ft [] = [(w, ft)]"
| "in_flight_put w ft ((k, v) # xs) =
     (if w = k then (k, ft) # xs
      else if w < k then (w, ft) # (k, v) # xs
      else (k, v) # in_flight_put w ft xs)"

definition add_warp :: "Pool \<Rightarrow> nat \<Rightarrow> nat \<Rightarrow> Pool" where
  "add_warp p w future_time =
     (if future_time = 0 then p\<lparr>pool_warps := pool_warps p @ [w]\<rparr>
      else p\<lparr>in_flight := in_flight_put w future_time (in_flight p)\<rparr>)"

definition process_warps_in_flight :: "Pool \<Rightarrow> Pool" where
  "process_warps_in_flight p =
     p\<lparr>pool_warps := pool_warps p @ map fst (filter (\<lambda>(k, v). v = 0) (in_flight p)),
       in_flight := map (\<lambda>(k, v). (k, v - 1)) (filter (\<lambda>(k, v). v \<noteq> 0) (in_flight p))\<rparr>"

definition take_warp :: "Pool \<Rightarrow> error + nat \<times> Pool" where
  "take_warp p =
     (case pool_warps p of [] \<Rightarrow> Inl Out_of_bounds
      | w # ws \<Rightarrow> Inr (w, p\<lparr>pool_warps := ws\<rparr>))"

definition set_size :: "Pool \<Rightarrow> Pool" where
  "set_size p = p\<lparr>pool_size := length (pool_warps p)\<rparr>"

definition has_work :: "Pool \<Rightarrow> bool" where
  "has_work p = (length (pool_warps p) > 0)"

definition pool_is_done :: "Pool \<Rightarrow> error + bool" where
  "pool_is_done p = (if pool_size p = 0 then Inl Assertion_failed else Inr (pool_done p = pool_size p))"

text \<open>
  The state of one run of \<^verbatim>\<open>reuse_distance\<close>. \<open>P\<close> is a map read with \<^verbatim>\<open>operator[]\<close>, so a
  missing line address reads as 0. \<open>distances\<close> is the histogram, a list of (distance,
  frequency) pairs with one pair per distance. \<open>draws\<close> counts the samples taken from the
  latency distribution; sample \<open>k\<close> is \<open>noise k\<close>, the value of
  \<^verbatim>\<open>std::abs(std::round(distribution(gen)))\<close>, a parameter of the model.
\<close>

record engine =
  threads :: "Thread list"
  P :: "nat \<Rightarrow> nat"
  B :: "node list"
  set_counters :: "nat list"
  distances :: "(nat \<times> nat) list"
  timestamp :: nat
  requests_miss :: "Requests list"
  requests_hit :: "Requests list"
  pool :: Pool
  draws :: nat

fun hist_incr :: "nat \<Rightarrow> (nat \<times> nat) list \<Rightarrow> (nat \<times> nat) list" where
  "hist_incr d [] = [(d, 1)]"
| "hist_incr d ((k, v) # h) = (if k = d then (k, u32 (v + 1)) # h else (k, v) # hist_incr d h)"

text \<open>
  \<^verbatim>\<open>process_requests\<close>: the requests that arrive at \<open>time\<close> are taken out of the queue and
  pushed on the stack of their set. The callers pass \<open>s < cache_sets\<close>, the length of \<open>B\<close> and
  \<open>set_counters\<close>. \<open>drain\<close> is the loop over all sets, hits before misses.
\<close>

fun complete_requests :: "nat \<Rightarrow> Request list \<Rightarrow> engine \<Rightarrow> engine" where
  "complete_requests s [] st = st"
| "complete_requests s (request # rs) st =
     (let st_two_lines = (if P st (addr request) \<noteq> 0
                 then st\<lparr>B := (B st)[s := tree_unset (B st ! s) (P st (addr request))]\<rparr>
                 else st);
          c = set_counters st_two_lines ! s
      in complete_requests s rs
           (st_two_lines\<lparr>P := (P st_two_lines)(addr request := c),
                B := (B st_two_lines)[s := tree_set (B st_two_lines ! s) c],
                set_counters := (set_counters st_two_lines)[s := u32 (c + 1)]\<rparr>))"

definition process_requests :: "Requests \<Rightarrow> nat \<Rightarrow> nat \<Rightarrow> engine \<Rightarrow> Requests \<times> engine" where
  "process_requests requests time s st =
     (if has_requests requests time
      then (let (current_requests, requests') = get_requests requests time
            in (requests', complete_requests s current_requests st))
      else (requests, st))"

definition drain_set :: "nat \<Rightarrow> engine \<Rightarrow> engine" where
  "drain_set s st =
     (let (rh, st_two_lines) = process_requests (requests_hit st ! s) (timestamp st) s st;
          st2 = st_two_lines\<lparr>requests_hit := (requests_hit st_two_lines)[s := rh]\<rparr>;
          (rm, st3) = process_requests (requests_miss st2 ! s) (timestamp st2) s st2
      in st3\<lparr>requests_miss := (requests_miss st3)[s := rm]\<rparr>)"

definition drain :: "Config \<Rightarrow> engine \<Rightarrow> engine" where
  "drain cfg st = fold drain_set [0..<cfg_sets cfg] st"

definition mshr_in_flight :: "Config \<Rightarrow> engine \<Rightarrow> nat" where
  "mshr_in_flight cfg st =
     fold (\<lambda>s n. u32 (n + get_num_requests (requests_miss st ! s))) [0..<cfg_sets cfg] 0"

text \<open>
  The body of the loop over the threads of a warp, for one thread, the loops over the threads
  of a slice and over the slices of a warp, the turn of one warp taken from the pool
  (\<open>warp_turn\<close>) and one iteration of the loop over the pool (\<open>pool_step\<close>). \<open>reuse_dist\<close> looks the
  line up in \<open>P\<close> and counts the stack; \<open>issue_access\<close> is the branch on
  \<^verbatim>\<open>distance >= cache_ways\<close>, the MSHR check and the histogram update. The result carries the
  flag of the \<^verbatim>\<open>break\<close> and the loop variables \<^verbatim>\<open>max_future_time\<close> and \<^verbatim>\<open>threads_done\<close>.
\<close>

definition reuse_dist :: "engine \<Rightarrow> nat \<Rightarrow> nat \<Rightarrow> error + nat" where
  "reuse_dist st s line_addr =
     (if P st line_addr \<noteq> 0 \<and> \<not> P st line_addr < set_counters st ! s then Inl Assertion_failed
      else
        (let previous_time = (if P st line_addr \<noteq> 0 then P st line_addr else INF_dist)
         in Inr (if previous_time \<noteq> INF_dist then count (B st ! s) previous_time else INF_dist)))"

definition issue_access ::
  "Config \<Rightarrow> (nat \<Rightarrow> nat) \<Rightarrow> nat \<Rightarrow> nat \<Rightarrow> nat \<Rightarrow> nat \<Rightarrow> nat \<Rightarrow> nat \<Rightarrow> nat \<times> nat \<times> engine
     \<Rightarrow> error + bool \<times> nat \<times> nat \<times> engine" where
  "issue_access cfg noise num_miss_requests tid tnum line_addr s distance v =
     (case v of (max_future_time, threads_done, st) \<Rightarrow>
      if distance \<ge> cfg_ways cfg
      then
        (let memory_latency = u32 (cfg_mem_latency cfg + noise (draws st));
             st2 = st\<lparr>draws := draws st + 1\<rparr>;
             arrival_time = u32 (timestamp st2 + memory_latency);
             max_future_time' = (if memory_latency > max_future_time
                                 then memory_latency else max_future_time)
         in if num_miss_requests \<ge> cfg_num_mshr cfg \<and> tnum = 0
            then (case unschedule (threads st2 ! tid) of
                    Inl e \<Rightarrow> Inl e
                  | Inr t'' \<Rightarrow>
                      Inr (True, 0, threads_done, st2\<lparr>threads := (threads st2)[tid := t'']\<rparr>))
            else Inr (False, max_future_time', threads_done,
                   st2\<lparr>requests_miss := (requests_miss st2)
                          [s := add (requests_miss st2 ! s) line_addr arrival_time s],
                       distances := hist_incr distance (distances st2)\<rparr>))
      else
        (let arrival_time = u32 (timestamp st + cfg_non_mem_latency cfg)
         in Inr (False, max_future_time, threads_done,
              st\<lparr>requests_hit := (requests_hit st)
                     [s := add (requests_hit st ! s) line_addr arrival_time s],
                  distances := hist_incr distance (distances st)\<rparr>)))"

definition thread_body ::
  "Settings \<Rightarrow> Config \<Rightarrow> (nat \<Rightarrow> nat) \<Rightarrow> nat \<Rightarrow> nat \<Rightarrow> nat \<Rightarrow> nat \<times> nat \<times> engine
     \<Rightarrow> error + bool \<times> nat \<times> nat \<times> engine" where
  "thread_body hardware cfg noise num_miss_requests tid tnum v =
     (case v of (max_future_time, threads_done, st) \<Rightarrow>
      if \<not> tid < length (threads st) then Inl Out_of_bounds
      else if is_done (threads st ! tid)
      then Inr (False, max_future_time, u32 (threads_done + 1), st)
      else
        (case schedule (threads st ! tid) of
           Inl e \<Rightarrow> Inl e
         | Inr (access, t') \<Rightarrow>
             (let st_two_lines = st\<lparr>threads := (threads st)[tid := t']\<rparr>
              in if width access = 0 then Inr (False, max_future_time, threads_done, st_two_lines)
                 else if line_size hardware = 0 then Inl Division_by_zero
                 else
                   (let line_addr = address access div line_size hardware
                    in case line_addr_to_set line_addr (address access) (cfg_sets cfg)
                              (u32 (cfg_sets cfg * cfg_ways cfg * line_size hardware)) of
                         Inl e \<Rightarrow> Inl e
                       | Inr s \<Rightarrow>
                           if \<not> s < cfg_sets cfg then Inl Assertion_failed
                           else
                             (case reuse_dist st_two_lines s line_addr of
                                Inl e \<Rightarrow> Inl e
                              | Inr distance \<Rightarrow>
                                  issue_access cfg noise num_miss_requests tid tnum line_addr s
                                    distance (max_future_time, threads_done, st_two_lines))))))"

fun slice_threads ::
  "Settings \<Rightarrow> Config \<Rightarrow> (nat \<Rightarrow> nat) \<Rightarrow> nat \<Rightarrow> nat list \<Rightarrow> nat list \<Rightarrow> nat \<times> nat \<times> engine
     \<Rightarrow> error + nat \<times> nat \<times> engine" where
  "slice_threads hardware cfg noise num_miss_requests warp [] v = Inr v"
| "slice_threads hardware cfg noise num_miss_requests warp (tnum # tnums) v =
     (case thread_body hardware cfg noise num_miss_requests (warp ! tnum) tnum v of
        Inl e \<Rightarrow> Inl e
      | Inr (brk, v') \<Rightarrow>
          if brk then Inr v' else slice_threads hardware cfg noise num_miss_requests warp tnums v')"

fun warp_portions ::
  "Settings \<Rightarrow> Config \<Rightarrow> (nat \<Rightarrow> nat) \<Rightarrow> nat \<Rightarrow> nat list \<Rightarrow> nat \<Rightarrow> nat list \<Rightarrow> nat \<times> nat \<times> engine
     \<Rightarrow> error + nat \<times> nat \<times> engine" where
  "warp_portions hardware cfg noise num_miss_requests warp portions [] v = Inr v"
| "warp_portions hardware cfg noise num_miss_requests warp portions (warp_portion # wps) v =
     (let tnum_start = u32 (warp_portion * (warp_size hardware div portions));
          tnum_stop = u32 ((warp_portion + 1) * (warp_size hardware div portions))
      in case slice_threads hardware cfg noise num_miss_requests warp
                [tnum_start..<min tnum_stop (length warp)] v of
           Inl e \<Rightarrow> Inl e
         | Inr (max_future_time, threads_done, st) \<Rightarrow>
             warp_portions hardware cfg noise num_miss_requests warp portions wps
               (max_future_time, threads_done, drain cfg st))"

definition warp_turn ::
  "Settings \<Rightarrow> Config \<Rightarrow> (nat \<Rightarrow> nat) \<Rightarrow> nat list list \<Rightarrow> nat \<Rightarrow> engine \<Rightarrow> error + engine" where
  "warp_turn hardware cfg noise warps num_miss_requests st =
     (case take_warp (pool st) of
        Inl e \<Rightarrow> Inl e
      | Inr (wnum, p) \<Rightarrow>
          if \<not> wnum < length warps then Inl Out_of_bounds
          else if warps ! wnum = [] then Inl Out_of_bounds
          else if \<not> hd (warps ! wnum) < length (threads st) then Inl Out_of_bounds
          else
            (case get_bytes (threads st ! hd (warps ! wnum)) of
               Inl e \<Rightarrow> Inl e
             | Inr first_bytes \<Rightarrow>
                 (let portions = max 1 (first_bytes div 4)
                  in case warp_portions hardware cfg noise num_miss_requests (warps ! wnum)
                            portions [0..<portions] (0, 0, st\<lparr>pool := p\<rparr>) of
                       Inl e \<Rightarrow> Inl e
                     | Inr (max_future_time, threads_done, st') \<Rightarrow>
                         if threads_done = length (warps ! wnum)
                         then Inr (st'\<lparr>pool := (pool st')\<lparr>pool_done := u32 (pool_done (pool st') + 1)\<rparr>\<rparr>)
                         else Inr (st'\<lparr>pool := add_warp (pool st') wnum max_future_time\<rparr>))))"

definition pool_step ::
  "Settings \<Rightarrow> Config \<Rightarrow> (nat \<Rightarrow> nat) \<Rightarrow> nat list list \<Rightarrow> engine \<Rightarrow> error + engine" where
  "pool_step hardware cfg noise warps st =
     (let num_miss_requests = mshr_in_flight cfg st
      in case (if has_work (pool st)
               then warp_turn hardware cfg noise warps num_miss_requests st
               else Inr st) of
           Inl e \<Rightarrow> Inl e
         | Inr st1 \<Rightarrow>
             (let st2 = drain cfg st1
              in Inr (st2\<lparr>pool := process_warps_in_flight (pool st2),
                         timestamp := u32 (timestamp st2 + 1)\<rparr>)))"

text \<open>
  The loop \<^verbatim>\<open>while (!pool.is_done())\<close> may run forever (a warp is returned to the pool with
  delay 0 for as long as its first thread is refused an MSHR), so it takes fuel: \<open>None\<close> is
  "still running after \<open>fuel\<close> iterations".
\<close>

fun pool_loop ::
  "nat \<Rightarrow> Settings \<Rightarrow> Config \<Rightarrow> (nat \<Rightarrow> nat) \<Rightarrow> nat list list \<Rightarrow> engine \<Rightarrow> (error + engine) option" where
  "pool_loop 0 hardware cfg noise warps st = None"
| "pool_loop (Suc fuel) hardware cfg noise warps st =
     (case pool_is_done (pool st) of
        Inl e \<Rightarrow> Some (Inl e)
      | Inr True \<Rightarrow> Some (Inr st)
      | Inr False \<Rightarrow>
          (case pool_step hardware cfg noise warps st of
             Inl e \<Rightarrow> Some (Inl e)
           | Inr st' \<Rightarrow> pool_loop fuel hardware cfg noise warps st'))"

text \<open>
  Phase 1: the accesses per set. The loop schedules every access a thread has left; the model
  walks the list of those accesses.
\<close>

fun count_set_accesses :: "Settings \<Rightarrow> Config \<Rightarrow> Access list \<Rightarrow> nat list \<Rightarrow> error + nat list" where
  "count_set_accesses hardware cfg [] num_total_accesses = Inr num_total_accesses"
| "count_set_accesses hardware cfg (access # rest) num_total_accesses =
     (if width access \<noteq> 0
      then if line_size hardware = 0 then Inl Division_by_zero
           else
             (let line_addr = address access div line_size hardware
              in case line_addr_to_set line_addr (address access) (cfg_sets cfg)
                        (u32 (cfg_sets cfg * cfg_ways cfg * line_size hardware)) of
                   Inl e \<Rightarrow> Inl e
                 | Inr s \<Rightarrow>
                     (let n1 = num_total_accesses[s := u32 (num_total_accesses ! s + 1)];
                          line_addr2 = end_address access div line_size hardware
                      in if line_addr \<noteq> line_addr2
                         then (case line_addr_to_set line_addr2 (end_address access) (cfg_sets cfg)
                                      (u32 (cfg_sets cfg * cfg_ways cfg * line_size hardware)) of
                                 Inl e \<Rightarrow> Inl e
                               | Inr s2 \<Rightarrow>
                                   count_set_accesses hardware cfg rest (n1[s2 := u32 (n1 ! s2 + 1)]))
                         else count_set_accesses hardware cfg rest n1))
      else count_set_accesses hardware cfg rest num_total_accesses)"

fun count_threads :: "Settings \<Rightarrow> Config \<Rightarrow> Thread list \<Rightarrow> nat list \<Rightarrow> error + nat list" where
  "count_threads hardware cfg [] num_total_accesses = Inr num_total_accesses"
| "count_threads hardware cfg (t # ts) num_total_accesses =
     (if \<not> unat (pc t) \<le> length (accesses t) then Inl Assertion_failed
      else case count_set_accesses hardware cfg (drop (unat (pc t)) (accesses t)) num_total_accesses of
             Inl e \<Rightarrow> Inl e
           | Inr n \<Rightarrow> count_threads hardware cfg ts n)"

definition sum_u32 :: "nat list \<Rightarrow> nat" where
  "sum_u32 xs = fold (\<lambda>x total. u32 (total + x)) xs 0"

fun fill_pool :: "nat list list \<Rightarrow> nat list \<Rightarrow> Pool \<Rightarrow> error + Pool" where
  "fill_pool blocks [] p = Inr p"
| "fill_pool blocks (bid # bids) p =
     (if \<not> bid < length blocks then Inl Out_of_bounds
      else fill_pool blocks bids (fold (\<lambda>w q. add_warp q w 0) (blocks ! bid) p))"

definition window_start :: "Config \<Rightarrow> Pool \<Rightarrow> engine \<Rightarrow> engine" where
  "window_start cfg p st =
     st\<lparr>pool := set_size p,
        requests_miss := replicate (cfg_sets cfg) Requests_init,
        requests_hit := replicate (cfg_sets cfg) Requests_init\<rparr>"

text \<open>
  The loop over the windows of active blocks runs for \<^verbatim>\<open>ceil(core.size()/(float)active_blocks)\<close>
  rounds; the quotient is exact for the sizes a trace of at most \<^verbatim>\<open>MAX_THREADS\<close> threads gives.
  With no active block and a non-empty core the first pool is empty and \<^verbatim>\<open>is_done\<close> fails its
  assertion. \<open>reuse_distance_run\<close> is the function up to the end of that loop, with the state
  it has reached; \<open>reuse_distance\<close> then resets the threads, and its result records the two
  totals the final sanity check compares.
\<close>

fun windows ::
  "nat \<Rightarrow> Settings \<Rightarrow> Config \<Rightarrow> (nat \<Rightarrow> nat) \<Rightarrow> nat list \<Rightarrow> nat list list \<Rightarrow> nat list list
     \<Rightarrow> nat \<Rightarrow> nat list \<Rightarrow> engine \<Rightarrow> (error + engine) option" where
  "windows fuel hardware cfg noise core blocks warps active_blocks [] st = Some (Inr st)"
| "windows fuel hardware cfg noise core blocks warps active_blocks (snum # snums) st =
     (case fill_pool blocks
             (map (\<lambda>bnum. core ! bnum)
                [snum * active_blocks..<min ((snum + 1) * active_blocks) (length core)])
             Pool_init of
        Inl e \<Rightarrow> Some (Inl e)
      | Inr p \<Rightarrow>
          (case pool_loop fuel hardware cfg noise warps (window_start cfg p st) of
             None \<Rightarrow> None
           | Some (Inl e) \<Rightarrow> Some (Inl e)
           | Some (Inr st') \<Rightarrow>
               windows fuel hardware cfg noise core blocks warps active_blocks snums st'))"

record rd_result =
  out_threads :: "Thread list"
  out_distances :: "(nat \<times> nat) list"
  grand_total :: nat
  distances_total :: nat

definition engine_init :: "Config \<Rightarrow> Thread list \<Rightarrow> (nat \<times> nat) list \<Rightarrow> nat list \<Rightarrow> engine" where
  "engine_init cfg ths dists num_total_accesses =
     \<lparr>threads = map reset ths, P = (\<lambda>_. 0),
      B = map (\<lambda>n. Tree (u32 (n + STACK_EXTRA_SIZE))) num_total_accesses,
      set_counters = replicate (cfg_sets cfg) 1, distances = dists, timestamp = 0,
      requests_miss = [], requests_hit = [], pool = Pool_init, draws = 0\<rparr>"

definition reuse_distance_run ::
  "nat \<Rightarrow> nat list \<Rightarrow> nat list list \<Rightarrow> nat list list \<Rightarrow> Thread list \<Rightarrow> (nat \<times> nat) list \<Rightarrow> nat
     \<Rightarrow> Settings \<Rightarrow> Config \<Rightarrow> (nat \<Rightarrow> nat) \<Rightarrow> (error + nat list \<times> engine) option" where
  "reuse_distance_run fuel core blocks warps ths dists active_blocks hardware cfg noise =
     (case count_threads hardware cfg ths (replicate (cfg_sets cfg) 0) of
        Inl e \<Rightarrow> Some (Inl e)
      | Inr num_total_accesses \<Rightarrow>
          if active_blocks = 0 \<and> core \<noteq> [] then Some (Inl Assertion_failed)
          else
            (case windows fuel hardware cfg noise core blocks warps active_blocks
                    [0..<(length core + active_blocks - 1) div active_blocks]
                    (engine_init cfg ths dists num_total_accesses) of
               None \<Rightarrow> None
             | Some (Inl e) \<Rightarrow> Some (Inl e)
             | Some (Inr st) \<Rightarrow> Some (Inr (num_total_accesses, st))))"

definition reuse_distance ::
  "nat \<Rightarrow> nat list \<Rightarrow> nat list list \<Rightarrow> nat list list \<Rightarrow> Thread list \<Rightarrow> (nat \<times> nat) list \<Rightarrow> nat
     \<Rightarrow> Settings \<Rightarrow> Config \<Rightarrow> (nat \<Rightarrow> nat) \<Rightarrow> (error + rd_result) option" where
  "reuse_distance fuel core blocks warps ths dists active_blocks hardware cfg noise =
     (case reuse_distance_run fuel core blocks warps ths dists active_blocks hardware cfg noise of
        None \<Rightarrow> None
      | Some (Inl e) \<Rightarrow> Some (Inl e)
      | Some (Inr (num_total_accesses, st)) \<Rightarrow>
          Some (Inr \<lparr>out_threads = map reset (threads st), out_distances = distances st,
                     grand_total = sum_u32 num_total_accesses,
                     distances_total = sum_u32 (map snd (distances st))\<rparr>))"

section \<open>Miss classification (io.cpp)\<close>

text \<open>
  \<^verbatim>\<open>output_miss_rate\<close> from the histograms of the four runs: \<open>classify_entries\<close> is the loop
  over one histogram, \<open>decompose\<close> the arithmetic on the counts. \<open>s32\<close> is the conversion of an
  unsigned difference to \<^verbatim>\<open>int\<close>.
\<close>

fun classify_entries :: "nat \<Rightarrow> nat \<Rightarrow> (nat \<times> nat) list \<Rightarrow> nat \<times> nat \<times> nat \<Rightarrow> nat \<times> nat \<times> nat" where
  "classify_entries i ways [] v = v"
| "classify_entries i ways ((first, second) # es) (compulsory, capacity, hit_count) =
     classify_entries i ways es
       (if first = INF_dist then (u32 (compulsory + second), capacity, hit_count)
        else if first > ways then (compulsory, u32 (capacity + second), hit_count)
        else if i = 0 then (compulsory, capacity, u32 (hit_count + second))
        else (compulsory, capacity, hit_count))"

definition run_ways :: "Settings \<Rightarrow> nat \<Rightarrow> nat" where
  "run_ways hardware i =
     (if i = 1 then u32 (cache_ways hardware * cache_sets hardware) else cache_ways hardware)"

definition s32 :: "int \<Rightarrow> int" where
  "s32 x = (x + 2147483648) mod 4294967296 - 2147483648"

record miss_rates =
  miss_compulsory :: "nat list"
  miss_capacity :: "nat list"
  miss :: "nat list"
  hits :: nat
  miss_associativity :: int
  miss_latency :: int
  miss_mshr :: int
  rest :: int
  total_misses :: nat
  total_accesses :: nat

definition decompose :: "nat list \<Rightarrow> nat list \<Rightarrow> nat \<Rightarrow> miss_rates" where
  "decompose compulsory capacity hit_count =
     (let m = map (\<lambda>(c, k). u32 (c + k)) (zip compulsory capacity);
          associativity = s32 (int (m ! 0) - int (m ! 1));
          latency = s32 (int (compulsory ! 0) - int (compulsory ! 2));
          mshr = s32 (int (m ! 0) - int (m ! 3));
          compulsory' = compulsory[0 := compulsory ! 2];
          r = s32 (int (m ! 0) - (int (compulsory' ! 0) + max 0 latency + max 0 associativity + max 0 mshr));
          capacity' = capacity[0 := nat (max 0 r)];
          mshr' = (if r < 0 \<and> mshr > - r then mshr - r else mshr);
          latency' = (if r < 0 \<and> \<not> mshr > - r \<and> latency > - r then latency - r else latency);
          associativity' = (if r < 0 \<and> \<not> mshr > - r \<and> \<not> latency > - r
                            then associativity - r else associativity)
      in \<lparr>miss_compulsory = compulsory', miss_capacity = capacity', miss = m,
           hits = hit_count, miss_associativity = associativity', miss_latency = latency',
           miss_mshr = mshr', rest = r, total_misses = m ! 0,
           total_accesses = u32 (m ! 0 + hit_count)\<rparr>)"

definition output_miss_rate :: "(nat \<times> nat) list list \<Rightarrow> Settings \<Rightarrow> error + miss_rates" where
  "output_miss_rate dists hardware =
     (if length dists < 4 then Inl Out_of_bounds
      else
        (case classify_entries 0 (run_ways hardware 0) (dists ! 0) (0, 0, 0) of
           (c0, k0, h0) \<Rightarrow>
        (case classify_entries 1 (run_ways hardware 1) (dists ! 1) (0, 0, h0) of
           (c1, k1, h1) \<Rightarrow>
        (case classify_entries 2 (run_ways hardware 2) (dists ! 2) (0, 0, h1) of
           (c2, k2, h2) \<Rightarrow>
        (case classify_entries 3 (run_ways hardware 3) (dists ! 3) (0, 0, h2) of
           (c3, k3, h3) \<Rightarrow>
             Inr (decompose [c0, c1, c2, c3] [k0, k1, k2, k3] h3))))))"

section \<open>Scheduling and coalescing (scheduler.cpp)\<close>













section \<open>Example inputs\<close>

text \<open>
  An access and a thread as \<^verbatim>\<open>read_file\<close> builds them (\<^verbatim>\<open>address+bytes-1\<close> is computed in
  \<^verbatim>\<open>unsigned long\<close>), a cache of 4 ways and 32 sets with lines of 128 bytes, latency samples
  that are all 0, and a memory past the end of the access vectors that holds reads of 4 bytes
  at address 1024.
\<close>

definition read_access :: "nat \<Rightarrow> nat \<Rightarrow> Access" where
  "read_access a b =
     \<lparr>direction = 0, address = a, width = 1, bytes = b, end_address = (a + b + 2 ^ 64 - 1) mod 2 ^ 64\<rparr>"

definition new_thread :: "Access list \<Rightarrow> Thread" where
  "new_thread as = \<lparr>warpid = INF_dist, blockid = INF_dist, pc = 0, accesses = as\<rparr>"

definition no_noise :: "nat \<Rightarrow> nat" where
  "no_noise n = 0"


definition touched_lines :: "Settings \<Rightarrow> Thread list \<Rightarrow> nat set" where
  "touched_lines hardware ths =
     set (map (\<lambda>a. address a div line_size hardware)
            (filter (\<lambda>a. width a \<noteq> 0) (concat (map accesses ths))))"

definition hw_example :: Settings where
  "hw_example = \<lparr>line_size = 128, cache_bytes = 16384, cache_lines = 128, cache_ways = 4, cache_sets = 32,
     num_mshr = 1, num_cores = 1, warp_size = 32, max_active_threads = 1536, max_active_blocks = 8,
     mem_latency = 2, mem_latency_stddev = 0\<rparr>"

definition cfg_one_mshr :: Config where
  "cfg_one_mshr = \<lparr>cfg_sets = 1, cfg_ways = 128, cfg_mem_latency = 2, cfg_non_mem_latency = 0, cfg_num_mshr = 1\<rparr>"

definition cfg_four_ways :: Config where
  "cfg_four_ways = \<lparr>cfg_sets = 1, cfg_ways = 4, cfg_mem_latency = 2, cfg_non_mem_latency = 0, cfg_num_mshr = 64\<rparr>"

definition st_boundary :: engine where
  "st_boundary = window_start cfg_four_ways (Pool_init\<lparr>pool_warps := [0]\<rparr>)
            (engine_init cfg_four_ways [new_thread [read_access 0 4]] [(INF_dist, 5)] [6])"

definition st_two_lines :: engine where
  "st_two_lines = window_start cfg_one_mshr (Pool_init\<lparr>pool_warps := [0]\<rparr>)
           (engine_init cfg_one_mshr [new_thread [read_access 0 4], new_thread [read_access 128 4]] [] [2])"

definition inf_total :: "(nat \<times> nat) list \<Rightarrow> nat" where
  "inf_total h = sum_list (map snd (filter (\<lambda>e. fst e = INF_dist) h))"

section \<open>Properties of the engine\<close>

lemma pool_loop_unfold:
  "pool_loop fuel hardware cfg noise warps st =
     (if fuel = 0 then None
      else case pool_is_done (pool st) of
        Inl e \<Rightarrow> Some (Inl e)
      | Inr True \<Rightarrow> Some (Inr st)
      | Inr False \<Rightarrow>
          (case pool_step hardware cfg noise warps st of
             Inl e \<Rightarrow> Some (Inl e)
           | Inr st' \<Rightarrow> pool_loop (fuel - 1) hardware cfg noise warps st'))"
  by (cases fuel) (auto split: sum.splits bool.splits)

declare pool_loop.simps [simp del]

lemmas engine_defs = reuse_distance_def reuse_distance_run_def engine_init_def window_start_def pool_step_def warp_turn_def
  thread_body_def
  reuse_dist_def issue_access_def
  drain_def drain_set_def process_requests_def mshr_in_flight_def sum_u32_def
  pool_is_done_def has_work_def set_size_def take_warp_def process_warps_in_flight_def add_warp_def
  Pool_init_def reset_def get_bytes_def is_done_def STACK_EXTRA_SIZE_def
  get_requests_def has_requests_def get_num_requests_def add_def Requests_init_def
  schedule_def unschedule_def INF_dist_def u32_def
  read_access_def new_thread_def Let_def

lemmas eval_defs = engine_defs line_addr_to_set_one pool_loop_unfold hw_example_def cfg_one_mshr_def no_noise_def st_two_lines_def

lemma Inr_projr4:
  "\<not> isl r \<Longrightarrow>
   r = Inr (fst (projr r), fst (snd (projr r)), fst (snd (snd (projr r))), snd (snd (snd (projr r))))"
  by (cases r) auto

lemma s32_0: "s32 0 = 0" by (simp add: s32_def)

lemma classify_boundary:
  "ways \<noteq> INF_dist \<Longrightarrow>
   classify_entries i ways [(ways, f)] (c, k, h) = (c, k, if i = 0 then u32 (h + f) else h)"
  by simp

text \<open>
  C1, as stated, fails: with 4 ways an access at distance 4 is a miss in the engine (a latency
  is sampled and the request joins the miss queue), but the classifier counts the histogram
  entry at distance 4 as a hit: \<open>hits = 1\<close>, and the residual \<open>rest\<close> is 0.
\<close>

theorem boundary_distance_counterexample:
  "cfg_ways cfg_four_ways = 4 \<and>
   \<not> isl (issue_access cfg_four_ways no_noise 0 0 0 0 0 4 (0, 0, st_boundary)) \<and>
   get_num_requests
     (requests_miss (snd (snd (snd (projr (issue_access cfg_four_ways no_noise 0 0 0 0 0 4 (0, 0, st_boundary)))))) ! 0) = 1 \<and>
   requests_hit (snd (snd (snd (projr (issue_access cfg_four_ways no_noise 0 0 0 0 0 4 (0, 0, st_boundary))))))
     = requests_hit st_boundary \<and>
   distances (snd (snd (snd (projr (issue_access cfg_four_ways no_noise 0 0 0 0 0 4 (0, 0, st_boundary))))))
     = [(INF_dist, 5), (4, 1)] \<and>
   output_miss_rate [[(INF_dist, 5), (4, 1)], [(INF_dist, 5), (4, 1)], [(INF_dist, 5), (4, 1)],
                     [(INF_dist, 5), (4, 1)]] hw_example
     = Inr \<lparr>miss_compulsory = [5, 5, 5, 5], miss_capacity = [0, 0, 0, 0], miss = [5, 5, 5, 5],
             hits = 1, miss_associativity = 0, miss_latency = 0, miss_mshr = 0, rest = 0,
             total_misses = 5, total_accesses = 6\<rparr>"
  by (simp add: eval_defs cfg_four_ways_def st_boundary_def output_miss_rate_def decompose_def run_ways_def s32_0)

text \<open>
  C1 (amended): with at most \<open>INF\<close> ways, the engine treats an access as a miss exactly when its
  distance is \<open>INF\<close> or at least \<open>cache_ways\<close>; otherwise the request joins the hit queue of its
  set. A histogram entry at distance \<open>cache_ways\<close> is not counted as a capacity miss by the
  classifier: in run 0 it is counted as a hit, in the other runs it is counted nowhere; the
  residual \<open>rest\<close> of the decomposition does not depend on the hit count, so the entry does not
  enter it.
\<close>

theorem issue_access_miss_iff:
  assumes "cfg_ways cfg \<le> INF_dist"
    and "issue_access cfg noise num_miss_requests tid tnum line_addr s distance (mft, td, st)
           = Inr (brk, mft', td', st')"
  shows "((draws st' = draws st + 1 \<and> requests_hit st' = requests_hit st)
            = (distance = INF_dist \<or> cfg_ways cfg \<le> distance))
    \<and> (\<not> (distance = INF_dist \<or> cfg_ways cfg \<le> distance) \<longrightarrow>
          requests_miss st' = requests_miss st \<and>
          requests_hit st' = (requests_hit st)
            [s := add (requests_hit st ! s) line_addr (u32 (timestamp st + cfg_non_mem_latency cfg)) s])
    \<and> (cfg_ways cfg \<noteq> INF_dist \<longrightarrow>
          classify_entries i (cfg_ways cfg) [(cfg_ways cfg, f)] (c, k, h)
            = (c, k, if i = 0 then u32 (h + f) else h))
    \<and> rest (decompose cs ks (if i = 0 then u32 (h + f) else h)) = rest (decompose cs ks h)"
proof -
  have r: "rest (decompose cs ks (if i = 0 then u32 (h + f) else h)) = rest (decompose cs ks h)"
    by (simp add: decompose_def Let_def)
  show ?thesis
  proof (cases "cfg_ways cfg \<le> distance")
    case True
    then show ?thesis using assms(2) r
      by (auto simp: issue_access_def Let_def split: if_splits sum.splits)
  next
    case False
    with assms(1) have "distance \<noteq> INF_dist" by auto
    with False show ?thesis using assms(2) r
      by (auto simp: issue_access_def Let_def split: if_splits sum.splits)
  qed
qed

theorem issue_access_miss_iff_witness:
  "cfg_ways cfg_four_ways \<le> INF_dist \<and>
   \<not> isl (issue_access cfg_four_ways no_noise 0 0 0 0 0 4 (0, 0, st_boundary)) \<and>
   draws (snd (snd (snd (projr (issue_access cfg_four_ways no_noise 0 0 0 0 0 4 (0, 0, st_boundary)))))) = draws st_boundary + 1 \<and>
   classify_entries 0 (cfg_ways cfg_four_ways) [(cfg_ways cfg_four_ways, 1)] (5, 0, 0) = (5, 0, 1)"
proof -
  let ?r = "issue_access cfg_four_ways no_noise 0 0 0 0 0 4 (0, 0, st_boundary)"
  have w: "cfg_ways cfg_four_ways \<le> INF_dist" by (simp add: cfg_four_ways_def INF_dist_def)
  have n: "\<not> isl ?r" by (simp add: eval_defs cfg_four_ways_def st_boundary_def)
  note e = Inr_projr4 [OF n]
  from issue_access_miss_iff [OF w e, where i = 0 and f = 1 and c = 5 and k = 0 and h = 0] w n show ?thesis
    by (simp add: cfg_four_ways_def INF_dist_def u32_def)
qed

text \<open>
  C2, as stated, fails: with one MSHR, a warp of two threads reading two lines enqueues both
  misses (the count is taken once, before the warp is taken, and only thread 0 is checked).
  After the first iteration, at time 1, two lines are in flight, before and after the drain.
\<close>

theorem mshr_bound_counterexample:
  "cfg_num_mshr cfg_one_mshr = 1 \<and>
   \<not> isl (pool_step hw_example cfg_one_mshr no_noise [[0, 1]] st_two_lines) \<and>
   timestamp (projr (pool_step hw_example cfg_one_mshr no_noise [[0, 1]] st_two_lines)) = 1 \<and>
   mshr_in_flight cfg_one_mshr (projr (pool_step hw_example cfg_one_mshr no_noise [[0, 1]] st_two_lines)) = 2 \<and>
   mshr_in_flight cfg_one_mshr (drain cfg_one_mshr (projr (pool_step hw_example cfg_one_mshr no_noise [[0, 1]] st_two_lines))) = 2"
  by (simp add: eval_defs)

lemma schedule_unschedule:
  assumes "schedule t = Inr (access, t')" and "length (accesses t) < 2 ^ 32"
  shows "unschedule t' = Inr t"
proof -
  from assms(1) have lt: "unat (pc t) < length (accesses t)" and t': "t' = t\<lparr>pc := pc t + 1\<rparr>"
    by (auto simp: schedule_def Let_def split: if_splits)
  have "unat (pc t) + 1 < 2 ^ 32" using lt assms(2) by simp
  then have "unat (pc t + 1) = unat (pc t) + 1"
    by (simp add: unat_add_lem [THEN iffD1])
  then have "pc t + 1 \<noteq> 0" by (metis Suc_eq_plus1 nat.distinct(1) unat_0)
  then have "0 < pc t + 1" by (simp add: word_greater_zero_iff)
  then show ?thesis unfolding t' by (simp add: unschedule_def)
qed

text \<open>
  C2 (amended): when the number of lines in flight counted at the start of the iteration is at
  least \<open>num_mshr\<close>, a miss of the thread at index 0 of the warp is refused: the thread is
  unscheduled, no request is enqueued, no distance is recorded (only a latency sample has been
  drawn) and the loop over the threads of the slice is left, with \<^verbatim>\<open>max_future_time\<close> 0. A
  miss of a thread at any other index is enqueued and recorded whatever the count is.
\<close>

theorem mshr_backpressure_first_thread:
  assumes full: "cfg_num_mshr cfg \<le> num_miss_requests"
    and tid: "tid < length (threads st)"
    and len: "length (accesses (threads st ! tid)) < 2 ^ 32"
    and sch: "schedule (threads st ! tid) = Inr (access, t')"
    and w: "width access \<noteq> 0"
    and ls: "line_size hardware \<noteq> 0"
    and s: "line_addr_to_set (address access div line_size hardware) (address access) (cfg_sets cfg)
              (u32 (cfg_sets cfg * cfg_ways cfg * line_size hardware)) = Inr s"
    and sb: "s < cfg_sets cfg"
    and d: "reuse_dist (st\<lparr>threads := (threads st)[tid := t']\<rparr>) s (address access div line_size hardware)
              = Inr distance"
    and miss: "cfg_ways cfg \<le> distance"
  shows "thread_body hardware cfg noise num_miss_requests tid 0 (mft, td, st)
           = Inr (True, 0, td, st\<lparr>draws := draws st + 1\<rparr>) \<and>
    (warp ! 0 = tid \<longrightarrow>
       slice_threads hardware cfg noise num_miss_requests warp (0 # tnums) (mft, td, st)
         = Inr (0, td, st\<lparr>draws := draws st + 1\<rparr>)) \<and>
    (tnum \<noteq> 0 \<longrightarrow>
       thread_body hardware cfg noise num_miss_requests tid tnum (mft, td, st)
         = Inr (False, max mft (u32 (cfg_mem_latency cfg + noise (draws st))), td,
                st\<lparr>threads := (threads st)[tid := t'], draws := draws st + 1,
                   requests_miss := (requests_miss st)
                     [s := add (requests_miss st ! s) (address access div line_size hardware)
                             (u32 (timestamp st + u32 (cfg_mem_latency cfg + noise (draws st)))) s],
                   distances := hist_incr distance (distances st)\<rparr>))"
proof -
  have un: "unschedule t' = Inr (threads st ! tid)" using sch len by (rule schedule_unschedule)
  have nd: "\<not> is_done (threads st ! tid)"
    using sch by (auto simp: schedule_def is_done_def Let_def split: if_splits)
  have upd: "(threads st)[tid := t', tid := threads st ! tid] = threads st"
    by (simp add: list_update_id)
  have a: "thread_body hardware cfg noise num_miss_requests tid 0 (mft, td, st)
           = Inr (True, 0, td, st\<lparr>draws := draws st + 1\<rparr>)"
    using full tid nd sch w ls s sb d miss un upd
    by (simp add: thread_body_def issue_access_def Let_def)
  have b: "slice_threads hardware cfg noise num_miss_requests warp (0 # tnums) (mft, td, st)
         = Inr (0, td, st\<lparr>draws := draws st + 1\<rparr>)" if "warp ! 0 = tid"
    using a that by simp
  have c: "thread_body hardware cfg noise num_miss_requests tid tnum (mft, td, st)
         = Inr (False, max mft (u32 (cfg_mem_latency cfg + noise (draws st))), td,
                st\<lparr>threads := (threads st)[tid := t'], draws := draws st + 1,
                   requests_miss := (requests_miss st)
                     [s := add (requests_miss st ! s) (address access div line_size hardware)
                             (u32 (timestamp st + u32 (cfg_mem_latency cfg + noise (draws st)))) s],
                   distances := hist_incr distance (distances st)\<rparr>)" if "tnum \<noteq> 0"
    using that tid nd sch w ls s sb d miss
    by (simp add: thread_body_def issue_access_def Let_def max_def)
  from a b c show ?thesis by blast
qed


theorem mshr_backpressure_first_thread_witness:
  "cfg_num_mshr cfg_one_mshr \<le> 1 \<and>
   schedule (threads st_two_lines ! 0) = Inr (read_access 0 4, (new_thread [read_access 0 4])\<lparr>pc := 1\<rparr>) \<and>
   reuse_dist (st_two_lines\<lparr>threads := (threads st_two_lines)[0 := (new_thread [read_access 0 4])\<lparr>pc := 1\<rparr>]\<rparr>) 0
     (address (read_access 0 4) div line_size hw_example) = Inr INF_dist \<and>
   cfg_ways cfg_one_mshr \<le> INF_dist \<and>
   thread_body hw_example cfg_one_mshr no_noise 1 0 0 (0, 0, st_two_lines)
     = Inr (True, 0, 0, st_two_lines\<lparr>draws := draws st_two_lines + 1\<rparr>) \<and>
   slice_threads hw_example cfg_one_mshr no_noise 1 [0, 1] [0, 1] (0, 0, st_two_lines)
     = Inr (0, 0, st_two_lines\<lparr>draws := draws st_two_lines + 1\<rparr>) \<and>
   get_num_requests (requests_miss (snd (snd (snd (projr
     (thread_body hw_example cfg_one_mshr no_noise 1 0 1 (0, 0, st_two_lines)))))) ! 0) = 1"
proof -
  let ?t' = "(new_thread [read_access 0 4])\<lparr>pc := 1\<rparr>"
  have full: "cfg_num_mshr cfg_one_mshr \<le> 1" by (simp add: cfg_one_mshr_def)
  have tid: "0 < length (threads st_two_lines)" by (simp add: eval_defs)
  have len: "length (accesses (threads st_two_lines ! 0)) < 2 ^ 32" by (simp add: eval_defs)
  have sch: "schedule (threads st_two_lines ! 0) = Inr (read_access 0 4, ?t')"
    by (simp add: eval_defs)
  have w: "width (read_access 0 4) \<noteq> 0" by (simp add: read_access_def)
  have ls: "line_size hw_example \<noteq> 0" by (simp add: hw_example_def)
  have s: "line_addr_to_set (address (read_access 0 4) div line_size hw_example) (address (read_access 0 4))
             (cfg_sets cfg_one_mshr)
             (u32 (cfg_sets cfg_one_mshr * cfg_ways cfg_one_mshr * line_size hw_example)) = Inr 0"
    by (simp add: cfg_one_mshr_def line_addr_to_set_one)
  have sb: "0 < cfg_sets cfg_one_mshr" by (simp add: cfg_one_mshr_def)
  have d: "reuse_dist (st_two_lines\<lparr>threads := (threads st_two_lines)[0 := ?t']\<rparr>) 0
             (address (read_access 0 4) div line_size hw_example) = Inr INF_dist"
    by (simp add: eval_defs)
  have miss: "cfg_ways cfg_one_mshr \<le> INF_dist" by (simp add: cfg_one_mshr_def INF_dist_def)
  note t = mshr_backpressure_first_thread [OF full tid len sch w ls s sb d miss,
      of no_noise 0 0 "[0, 1]" "[1]" 1]
  from t have a: "thread_body hw_example cfg_one_mshr no_noise 1 0 0 (0, 0, st_two_lines)
     = Inr (True, 0, 0, st_two_lines\<lparr>draws := draws st_two_lines + 1\<rparr>)" by simp
  from t have b: "slice_threads hw_example cfg_one_mshr no_noise 1 [0, 1] [0, 1] (0, 0, st_two_lines)
     = Inr (0, 0, st_two_lines\<lparr>draws := draws st_two_lines + 1\<rparr>)" by simp
  from t have c: "get_num_requests (requests_miss (snd (snd (snd (projr
     (thread_body hw_example cfg_one_mshr no_noise 1 0 1 (0, 0, st_two_lines)))))) ! 0) = 1"
    by (simp add: eval_defs)
  from full sch d miss a b c show ?thesis by blast
qed

text \<open>
  C3 at one access of 4 bytes at address 126, which ends on the next line: phase 1 counts it in
  both sets (\<open>grand_total = 2\<close>), the engine records one distance (\<open>distances_total = 1\<close>).
\<close>

theorem sanity_check_straddle:
  "reuse_distance 10 [0] [[0]] [[0]] [new_thread [read_access 126 4]] [] 1 hw_example cfg_one_mshr no_noise =
   Some (Inr \<lparr>out_threads = [new_thread [read_access 126 4]], out_distances = [(INF_dist, 1)],
               grand_total = 2, distances_total = 1\<rparr>)"
  by (simp add: eval_defs)

lemma classify_fst:
  "c < 2 ^ 32 \<Longrightarrow> fst (classify_entries i w h (c, k, x)) = u32 (c + inf_total h)"
proof (induction h arbitrary: c k x)
  case Nil
  then show ?case by (simp add: inf_total_def u32_def)
next
  case (Cons e h)
  obtain d f where e: "e = (d, f)" by (cases e)
  show ?case
  proof (cases "d = INF_dist")
    case True
    have "u32 (c + f) < 2 ^ 32" by (simp add: u32_def)
    from Cons.IH [OF this]
    have "fst (classify_entries i w h (u32 (c + f), k, x)) = u32 (u32 (c + f) + inf_total h)" .
    also have "\<dots> = u32 (c + (f + inf_total h))"
      by (simp add: u32_def mod_simps add.assoc)
    finally show ?thesis using True e by (simp add: inf_total_def)
  next
    case False
    then show ?thesis using e Cons.IH [OF Cons.prems] by (auto simp: inf_total_def)
  qed
qed

lemma inf_total_hist_incr: "u32 (inf_total (hist_incr INF_dist h)) = u32 (inf_total h + 1)"
proof (induction h)
  case Nil
  show ?case by (simp add: inf_total_def)
next
  case (Cons e h)
  obtain d f where e: "e = (d, f)" by (cases e)
  show ?case
  proof (cases "d = INF_dist")
    case True
    have "u32 (u32 (f + 1) + inf_total h) = u32 (f + inf_total h + 1)"
      by (simp add: u32_def mod_simps)
    then show ?thesis using True e by (simp add: inf_total_def)
  next
    case False
    then show ?thesis using e Cons.IH by (simp add: inf_total_def)
  qed
qed

lemma compulsory_hist_incr:
  "fst (classify_entries i w (hist_incr INF_dist h) (0, 0, x))
     = u32 (fst (classify_entries i w h (0, 0, x)) + 1)"
proof -
  have "fst (classify_entries i w (hist_incr INF_dist h) (0, 0, x)) = u32 (inf_total (hist_incr INF_dist h))"
    by (simp add: classify_fst)
  also have "\<dots> = u32 (inf_total h + 1)" by (rule inf_total_hist_incr)
  also have "\<dots> = u32 (u32 (inf_total h) + 1)" by (simp add: u32_def mod_simps)
  also have "\<dots> = u32 (fst (classify_entries i w h (0, 0, x)) + 1)" by (simp add: classify_fst)
  finally show ?thesis .
qed

text \<open>
  An access that is issued while \<open>P\<close> holds no entry for its line is recorded at distance \<open>INF\<close>
  and adds one to \<open>miss_compulsory\<close>, whether or not the line was requested before.
\<close>

lemma compulsory_counts_unset_lines:
  assumes "thread_body hardware cfg noise num_miss_requests tid tnum (mft, td, st)
             = Inr (False, mft', td', st')"
    and "tid < length (threads st)"
    and "schedule (threads st ! tid) = Inr (a, t')"
    and "width a \<noteq> 0"
    and "P st (address a div line_size hardware) = 0"
  shows "distances st' = hist_incr INF_dist (distances st) \<and>
    fst (classify_entries i w (distances st') (0, 0, x))
      = u32 (fst (classify_entries i w (distances st) (0, 0, x)) + 1)"
proof -
  from assms(3) have nd: "\<not> is_done (threads st ! tid)"
    by (auto simp: schedule_def is_done_def Let_def split: if_splits)
  have "distances st' = hist_incr INF_dist (distances st)"
    using assms nd
    by (auto simp: thread_body_def issue_access_def reuse_dist_def Let_def
             split: if_splits sum.splits prod.splits)
  then show ?thesis by (simp add: compulsory_hist_incr)
qed

subsection \<open>An invariant of the run\<close>

text \<open>
  \<open>issued_lines\<close> are the line addresses of the accesses the threads have been scheduled past
  (those with a non-zero width), \<open>issued_count\<close> the number of accesses scheduled, \<open>queued\<close> the
  line addresses of the requests waiting in the queues. The invariant: the threads keep their
  accesses and their program counters stay inside them; the histogram holds at most one entry
  per scheduled access; every line in \<open>P\<close> or in a queue was issued; and the lines issued are no
  more than the entries at distance \<open>INF\<close>.
\<close>

definition hist_total :: "(nat \<times> nat) list \<Rightarrow> nat" where
  "hist_total h = sum_list (map snd h)"

definition thread_lines :: "Settings \<Rightarrow> Thread \<Rightarrow> nat set" where
  "thread_lines hardware t =
     set (map (\<lambda>a. address a div line_size hardware)
            (filter (\<lambda>a. width a \<noteq> 0) (take (unat (pc t)) (accesses t))))"

definition issued_lines :: "Settings \<Rightarrow> Thread list \<Rightarrow> nat set" where
  "issued_lines hardware ths = \<Union> (set (map (thread_lines hardware) ths))"

definition issued_count :: "Thread list \<Rightarrow> nat" where
  "issued_count ths = sum_list (map (\<lambda>t. unat (pc t)) ths)"

definition queued :: "engine \<Rightarrow> nat set" where
  "queued st = {addr r | r R t. R \<in> set (requests_miss st) \<union> set (requests_hit st) \<and> r \<in> set (request_list R t)}"

definition engine_inv :: "Settings \<Rightarrow> Thread list \<Rightarrow> engine \<Rightarrow> bool" where
  "engine_inv hardware ths st \<longleftrightarrow>
     map accesses (threads st) = map accesses ths \<and>
     (\<forall>t \<in> set (threads st). unat (pc t) \<le> length (accesses t)) \<and>
     hist_total (distances st) \<le> issued_count (threads st) \<and>
     (\<forall>L. P st L \<noteq> 0 \<longrightarrow> L \<in> issued_lines hardware (threads st)) \<and>
     queued st \<subseteq> issued_lines hardware (threads st) \<and>
     card (issued_lines hardware (threads st)) \<le> inf_total (distances st)"

lemma inf_total_le: "inf_total h \<le> hist_total h"
  by (induction h) (auto simp: inf_total_def hist_total_def)

lemma hist_incr_total:
  "hist_total h + 1 < 2 ^ 32 \<Longrightarrow> hist_total (hist_incr d h) = hist_total h + 1"
  by (induction h) (auto simp: hist_total_def u32_def)

lemma hist_incr_inf:
  "hist_total h + 1 < 2 ^ 32 \<Longrightarrow>
   inf_total (hist_incr d h) = inf_total h + (if d = INF_dist then 1 else 0)"
  by (induction h) (auto simp: hist_total_def inf_total_def u32_def)

lemma issued_lines_append [simp]:
  "issued_lines hardware (xs @ ys) = issued_lines hardware xs \<union> issued_lines hardware ys"
  by (simp add: issued_lines_def)

lemma issued_lines_Cons [simp]:
  "issued_lines hardware (t # ts) = thread_lines hardware t \<union> issued_lines hardware ts"
  by (simp add: issued_lines_def)

lemma issued_lines_Nil [simp]: "issued_lines hardware [] = {}"
  by (simp add: issued_lines_def)

lemma finite_issued_lines: "finite (issued_lines hardware ths)"
  by (simp add: issued_lines_def thread_lines_def)

lemma issued_count_Nil [simp]: "issued_count [] = 0"
  by (simp add: issued_count_def)

lemma issued_count_append [simp]: "issued_count (xs @ ys) = issued_count xs + issued_count ys"
  by (simp add: issued_count_def)

lemma issued_count_Cons [simp]: "issued_count (t # ts) = unat (pc t) + issued_count ts"
  by (simp add: issued_count_def)

lemma thread_lines_step:
  assumes "n < length (accesses t)" and "unat (pc t) = n" and "unat (pc t') = Suc n"
    and "accesses t' = accesses t"
  shows "thread_lines hardware t' = thread_lines hardware t \<union>
     (if width (accesses t ! n) \<noteq> 0 then {address (accesses t ! n) div line_size hardware} else {})"
  using assms by (auto simp: thread_lines_def take_Suc_conv_app_nth)

lemma threads_step:
  assumes "tid < length ths" and "n < length (accesses (ths ! tid))" and "unat (pc (ths ! tid)) = n"
    and "unat (pc t') = Suc n" and "accesses t' = accesses (ths ! tid)"
  shows "issued_lines hardware (ths[tid := t']) = issued_lines hardware ths \<union>
     (if width (accesses (ths ! tid) ! n) \<noteq> 0
      then {address (accesses (ths ! tid) ! n) div line_size hardware} else {})"
    and "issued_count (ths[tid := t']) = issued_count ths + 1"
    and "map accesses (ths[tid := t']) = map accesses ths"
proof -
  have u: "ths[tid := t'] = take tid ths @ t' # drop (Suc tid) ths"
    using assms(1) by (rule upd_conv_take_nth_drop)
  have i: "ths = take tid ths @ ths ! tid # drop (Suc tid) ths"
    using assms(1) by (rule id_take_nth_drop)
  have l: "thread_lines hardware t' = thread_lines hardware (ths ! tid) \<union>
     (if width (accesses (ths ! tid) ! n) \<noteq> 0
      then {address (accesses (ths ! tid) ! n) div line_size hardware} else {})"
    using assms(2,3,4,5) by (rule thread_lines_step)
  have "issued_lines hardware (ths[tid := t']) =
      issued_lines hardware (take tid ths) \<union> (thread_lines hardware t' \<union> issued_lines hardware (drop (Suc tid) ths))"
    unfolding u by simp
  moreover have "issued_lines hardware ths =
      issued_lines hardware (take tid ths) \<union> (thread_lines hardware (ths ! tid) \<union> issued_lines hardware (drop (Suc tid) ths))"
    by (subst i) simp
  ultimately show "issued_lines hardware (ths[tid := t']) = issued_lines hardware ths \<union>
     (if width (accesses (ths ! tid) ! n) \<noteq> 0
      then {address (accesses (ths ! tid) ! n) div line_size hardware} else {})"
    unfolding l by blast
  have "issued_count (ths[tid := t']) = issued_count (take tid ths) + (Suc n + issued_count (drop (Suc tid) ths))"
    unfolding u using assms(4) by simp
  moreover have "issued_count ths = issued_count (take tid ths) + (n + issued_count (drop (Suc tid) ths))"
    by (subst i) (simp add: assms(3))
  ultimately show "issued_count (ths[tid := t']) = issued_count ths + 1" by simp
  show "map accesses (ths[tid := t']) = map accesses ths"
    using assms(1,5) by (simp add: map_update list_update_same_conv)
qed


definition total_len :: "Thread list \<Rightarrow> nat" where
  "total_len ths = sum_list (map length (map accesses ths))"

lemma issued_count_le:
  "\<forall>t \<in> set ts. unat (pc t) \<le> length (accesses t) \<Longrightarrow> issued_count ts \<le> total_len ts"
  by (induction ts) (auto simp: total_len_def)

lemma length_le_total_len: "t \<in> set ts \<Longrightarrow> length (accesses t) \<le> total_len ts"
  by (induction ts) (auto simp: total_len_def)

lemma schedule_Inr:
  assumes "schedule t = Inr (a, t')" and "length (accesses t) < 2 ^ 32"
  shows "unat (pc t) < length (accesses t)" and "a = accesses t ! unat (pc t)"
    and "t' = t\<lparr>pc := pc t + 1\<rparr>" and "unat (pc t') = Suc (unat (pc t))"
proof -
  from assms(1) show lt: "unat (pc t) < length (accesses t)" and "a = accesses t ! unat (pc t)"
    and t': "t' = t\<lparr>pc := pc t + 1\<rparr>"
    by (auto simp: schedule_def Let_def split: if_splits)
  from lt assms(2) have "unat (pc t) + 1 < 2 ^ 32" by simp
  then have "unat (pc t + 1) = unat (pc t) + 1"
    by (simp add: unat_word_ariths)
  then show "unat (pc t') = Suc (unat (pc t))" using t' by simp
qed

lemma engine_inv_same:
  assumes "engine_inv hardware ths st" and "threads st' = threads st" and "P st' = P st"
    and "distances st' = distances st" and "queued st' \<subseteq> queued st"
  shows "engine_inv hardware ths st'"
  using assms unfolding engine_inv_def by auto

lemma engine_inv_scheduled:
  assumes inv: "engine_inv hardware ths st" and tl: "total_len ths < 2 ^ 32"
    and tid: "tid < length (threads st)" and sch: "schedule (threads st ! tid) = Inr (a, t')"
    and th: "threads st' = (threads st)[tid := t']" and p: "P st' = P st"
    and q: "queued st' \<subseteq> queued st \<union> (if width a \<noteq> 0 then {address a div line_size hardware} else {})"
    and h: "width a = 0 \<and> distances st' = distances st \<or>
            width a \<noteq> 0 \<and> (\<exists>d. distances st' = hist_incr d (distances st) \<and>
               (P st (address a div line_size hardware) = 0 \<longrightarrow> d = INF_dist))"
  shows "engine_inv hardware ths st'"
proof -
  let ?t = "threads st ! tid" and ?L = "address a div line_size hardware"
  let ?new = "if width a \<noteq> 0 then {?L} else {}"
  from inv have acc: "map accesses (threads st) = map accesses ths"
    and pcs: "\<forall>t \<in> set (threads st). unat (pc t) \<le> length (accesses t)"
    and hist: "hist_total (distances st) \<le> issued_count (threads st)"
    and pin: "\<forall>L. P st L \<noteq> 0 \<longrightarrow> L \<in> issued_lines hardware (threads st)"
    and qin: "queued st \<subseteq> issued_lines hardware (threads st)"
    and crd: "card (issued_lines hardware (threads st)) \<le> inf_total (distances st)"
    unfolding engine_inv_def by simp_all
  have tot: "total_len (threads st) = total_len ths" using acc by (simp add: total_len_def)
  have tin: "?t \<in> set (threads st)" using tid by simp
  then have "length (accesses ?t) \<le> total_len (threads st)" by (rule length_le_total_len)
  then have len: "length (accesses ?t) < 2 ^ 32" using tot tl by simp
  note s = schedule_Inr [OF sch len]
  have acc': "accesses t' = accesses ?t" using s(3) by simp
  have iss: "issued_lines hardware (threads st') = issued_lines hardware (threads st) \<union> ?new"
    using threads_step(1) [OF tid s(1) refl s(4) acc', of hardware] s(2) th by simp
  have cnt: "issued_count (threads st') = issued_count (threads st) + 1"
    using threads_step(2) [OF tid s(1) refl s(4) acc'] th by simp
  have acc2: "map accesses (threads st') = map accesses ths"
    using threads_step(3) [OF tid s(1) refl s(4) acc'] th acc by simp
  have pcs': "\<forall>t \<in> set (threads st'). unat (pc t) \<le> length (accesses t)"
  proof
    fix t assume "t \<in> set (threads st')"
    then have "t \<in> insert t' (set (threads st))"
      using th set_update_subset_insert [of "threads st" tid t'] by auto
    then show "unat (pc t) \<le> length (accesses t)"
      using pcs s(1) s(4) acc' by auto
  qed
  have "issued_count (threads st') \<le> total_len (threads st')" using pcs' by (rule issued_count_le)
  also have "\<dots> = total_len ths" using acc2 by (simp add: total_len_def)
  finally have bound: "hist_total (distances st) + 1 < 2 ^ 32" using hist cnt tl by simp
  have pin': "\<forall>L. P st' L \<noteq> 0 \<longrightarrow> L \<in> issued_lines hardware (threads st')"
    using pin p iss by simp
  have qin': "queued st' \<subseteq> issued_lines hardware (threads st')"
    using q qin iss by auto
  have fin: "finite (issued_lines hardware (threads st))" by (rule finite_issued_lines)
  from h show ?thesis
  proof
    assume w: "width a = 0 \<and> distances st' = distances st"
    then have "issued_lines hardware (threads st') = issued_lines hardware (threads st)"
      using iss by simp
    then show ?thesis
      unfolding engine_inv_def using acc2 pcs' pin' qin' hist cnt crd w by simp
  next
    assume "width a \<noteq> 0 \<and> (\<exists>d. distances st' = hist_incr d (distances st) \<and>
               (P st ?L = 0 \<longrightarrow> d = INF_dist))"
    then obtain d where w: "width a \<noteq> 0" and d: "distances st' = hist_incr d (distances st)"
      and dinf: "P st ?L = 0 \<longrightarrow> d = INF_dist" by auto
    have ht: "hist_total (distances st') = hist_total (distances st) + 1"
      unfolding d using bound by (rule hist_incr_total)
    have it: "inf_total (distances st') = inf_total (distances st) + (if d = INF_dist then 1 else 0)"
      unfolding d using bound by (rule hist_incr_inf)
    have "card (issued_lines hardware (threads st')) \<le> inf_total (distances st')"
    proof (cases "P st ?L = 0")
      case True
      then have "inf_total (distances st') = inf_total (distances st) + 1" using dinf it by simp
      moreover have "card (issued_lines hardware (threads st')) \<le> card (issued_lines hardware (threads st)) + 1"
        unfolding iss using w fin by (simp add: card_insert_if)
      ultimately show ?thesis using crd by simp
    next
      case False
      then have "?L \<in> issued_lines hardware (threads st)" using pin by simp
      then have "issued_lines hardware (threads st') = issued_lines hardware (threads st)"
        unfolding iss by auto
      then show ?thesis using crd it by simp
    qed
    then show ?thesis
      unfolding engine_inv_def using acc2 pcs' pin' qin' hist cnt ht by simp
  qed
qed

lemma queued_add_miss:
  "queued (st\<lparr>requests_miss := (requests_miss st)[s := add (requests_miss st ! s) L time s]\<rparr>)
     \<subseteq> insert L (queued st)"
proof (cases "s < length (requests_miss st)")
  case False
  then have "length (requests_miss st) \<le> s" by simp
  then have "(requests_miss st)[s := add (requests_miss st ! s) L time s] = requests_miss st"
    by (rule list_update_beyond)
  then show ?thesis by (auto simp: queued_def)
next
  case True
  then have m: "requests_miss st ! s \<in> set (requests_miss st)" by simp
  show ?thesis
  proof
    fix x assume "x \<in> queued (st\<lparr>requests_miss := (requests_miss st)[s := add (requests_miss st ! s) L time s]\<rparr>)"
    then obtain r R t where x: "x = addr r" and r: "r \<in> set (request_list R t)"
      and R: "R \<in> set ((requests_miss st)[s := add (requests_miss st ! s) L time s]) \<union> set (requests_hit st)"
      by (auto simp: queued_def)
    from R have "R = add (requests_miss st ! s) L time s \<or> R \<in> set (requests_miss st) \<union> set (requests_hit st)"
      using set_update_subset_insert [of "requests_miss st" s] by auto
    then show "x \<in> insert L (queued st)"
    proof
      assume "R = add (requests_miss st ! s) L time s"
      with r have "r = \<lparr>addr = L, req_set = s\<rparr> \<or> r \<in> set (request_list (requests_miss st ! s) t)"
        by (auto simp: add_def split: if_splits)
      then show ?thesis using x m by (auto simp: queued_def)
    next
      assume "R \<in> set (requests_miss st) \<union> set (requests_hit st)"
      then show ?thesis using x r by (auto simp: queued_def)
    qed
  qed
qed

lemma queued_add_hit:
  "queued (st\<lparr>requests_hit := (requests_hit st)[s := add (requests_hit st ! s) L time s]\<rparr>)
     \<subseteq> insert L (queued st)"
proof (cases "s < length (requests_hit st)")
  case False
  then have "length (requests_hit st) \<le> s" by simp
  then have "(requests_hit st)[s := add (requests_hit st ! s) L time s] = requests_hit st"
    by (rule list_update_beyond)
  then show ?thesis by (auto simp: queued_def)
next
  case True
  then have m: "requests_hit st ! s \<in> set (requests_hit st)" by simp
  show ?thesis
  proof
    fix x assume "x \<in> queued (st\<lparr>requests_hit := (requests_hit st)[s := add (requests_hit st ! s) L time s]\<rparr>)"
    then obtain r R t where x: "x = addr r" and r: "r \<in> set (request_list R t)"
      and R: "R \<in> set (requests_miss st) \<union> set ((requests_hit st)[s := add (requests_hit st ! s) L time s])"
      by (auto simp: queued_def)
    from R have "R = add (requests_hit st ! s) L time s \<or> R \<in> set (requests_miss st) \<union> set (requests_hit st)"
      using set_update_subset_insert [of "requests_hit st" s] by auto
    then show "x \<in> insert L (queued st)"
    proof
      assume "R = add (requests_hit st ! s) L time s"
      with r have "r = \<lparr>addr = L, req_set = s\<rparr> \<or> r \<in> set (request_list (requests_hit st ! s) t)"
        by (auto simp: add_def split: if_splits)
      then show ?thesis using x m by (auto simp: queued_def)
    next
      assume "R \<in> set (requests_miss st) \<union> set (requests_hit st)"
      then show ?thesis using x r by (auto simp: queued_def)
    qed
  qed
qed


lemma queued_other_fields [simp]:
  "queued (st\<lparr>draws := n\<rparr>) = queued st"
  "queued (st\<lparr>threads := ts\<rparr>) = queued st"
  "queued (st\<lparr>distances := h\<rparr>) = queued st"
  "queued (st\<lparr>pool := p\<rparr>) = queued st"
  "queued (st\<lparr>timestamp := n\<rparr>) = queued st"
  "queued (st\<lparr>P := f\<rparr>) = queued st"
  "queued (st\<lparr>B := b\<rparr>) = queued st"
  "queued (st\<lparr>set_counters := c\<rparr>) = queued st"
  by (simp_all add: queued_def)

lemma issue_access_cases:
  assumes "issue_access cfg noise num_miss_requests tid tnum L s d (mft, td, st) = Inr (brk, mft', td', st')"
  shows "(brk \<and> (\<exists>t''. unschedule (threads st ! tid) = Inr t'' \<and> threads st' = (threads st)[tid := t''])
            \<and> P st' = P st \<and> distances st' = distances st \<and> queued st' = queued st) \<or>
         (\<not> brk \<and> threads st' = threads st \<and> P st' = P st \<and>
            distances st' = hist_incr d (distances st) \<and> queued st' \<subseteq> insert L (queued st))"
proof (cases "cfg_ways cfg \<le> d")
  case False
  then have "st' = st\<lparr>requests_hit := (requests_hit st)
        [s := add (requests_hit st ! s) L (u32 (timestamp st + cfg_non_mem_latency cfg)) s],
      distances := hist_incr d (distances st)\<rparr>" and "\<not> brk"
    using assms by (auto simp: issue_access_def Let_def)
  then show ?thesis using queued_add_hit [of st s L] by simp
next
  case miss: True
  show ?thesis
  proof (cases "cfg_num_mshr cfg \<le> num_miss_requests \<and> tnum = 0")
    case True
    with miss assms obtain t'' where "unschedule (threads st ! tid) = Inr t''"
      and "st' = st\<lparr>draws := draws st + 1, threads := (threads st)[tid := t'']\<rparr>" and "brk"
      by (auto simp: issue_access_def Let_def split: sum.splits)
    then show ?thesis by simp
  next
    case False
    let ?st2 = "st\<lparr>draws := draws st + 1\<rparr>"
    from False miss assms have "\<not> brk" and
      "st' = ?st2\<lparr>requests_miss := (requests_miss ?st2)
        [s := add (requests_miss ?st2 ! s) L
                (u32 (timestamp ?st2 + u32 (cfg_mem_latency cfg + noise (draws st)))) s],
        distances := hist_incr d (distances ?st2)\<rparr>"
      by (auto simp: issue_access_def Let_def)
    then show ?thesis using queued_add_miss [of ?st2 s L] by simp
  qed
qed

lemma thread_body_inv:
  assumes inv: "engine_inv hardware ths st" and tl: "total_len ths < 2 ^ 32"
    and tb: "thread_body hardware cfg noise num_miss_requests tid tnum (mft, td, st) = Inr (brk, mft', td', st')"
  shows "engine_inv hardware ths st'"
proof -
  from tb have tid: "tid < length (threads st)"
    by (auto simp: thread_body_def split: if_splits)
  show ?thesis
  proof (cases "is_done (threads st ! tid)")
    case True
    with tb tid have "st' = st" by (simp add: thread_body_def)
    with inv show ?thesis by simp
  next
    case nd: False
    with tb tid obtain a t' where sch: "schedule (threads st ! tid) = Inr (a, t')"
      by (auto simp: thread_body_def split: sum.splits)
    let ?st1 = "st\<lparr>threads := (threads st)[tid := t']\<rparr>"
    let ?L = "address a div line_size hardware"
    show ?thesis
    proof (cases "width a = 0")
      case True
      with tb tid nd sch have "st' = ?st1" by (simp add: thread_body_def Let_def)
      then show ?thesis
        using engine_inv_scheduled [OF inv tl tid sch, of st'] True by simp
    next
      case w: False
      with tb tid nd sch obtain s d where rd: "reuse_dist ?st1 s ?L = Inr d"
        and ia: "issue_access cfg noise num_miss_requests tid tnum ?L s d (mft, td, ?st1) = Inr (brk, mft', td', st')"
        by (auto simp: thread_body_def Let_def split: if_splits sum.splits)
      from rd have dinf: "P st ?L = 0 \<longrightarrow> d = INF_dist"
        by (auto simp: reuse_dist_def Let_def split: if_splits)
      from issue_access_cases [OF ia] show ?thesis
      proof
        assume r: "brk \<and> (\<exists>t''. unschedule (threads ?st1 ! tid) = Inr t'' \<and> threads st' = (threads ?st1)[tid := t''])
            \<and> P st' = P ?st1 \<and> distances st' = distances ?st1 \<and> queued st' = queued ?st1"
        then obtain t'' where u: "unschedule (threads ?st1 ! tid) = Inr t''"
          and th: "threads st' = (threads ?st1)[tid := t'']" by auto
        from sch have t': "t' = (threads st ! tid)\<lparr>pc := pc (threads st ! tid) + 1\<rparr>"
          by (auto simp: schedule_def Let_def split: if_splits)
        from u tid have "t'' = t'\<lparr>pc := pc t' - 1\<rparr>"
          by (auto simp: unschedule_def split: if_splits)
        with t' have "t'' = threads st ! tid" by simp
        with th have "threads st' = threads st" by simp
        with r show ?thesis using engine_inv_same [OF inv, of st'] by simp
      next
        assume r: "\<not> brk \<and> threads st' = threads ?st1 \<and> P st' = P ?st1 \<and>
            distances st' = hist_incr d (distances ?st1) \<and> queued st' \<subseteq> insert ?L (queued ?st1)"
        have h: "width a = 0 \<and> distances st' = distances st \<or>
            width a \<noteq> 0 \<and> (\<exists>d. distances st' = hist_incr d (distances st) \<and>
               (P st ?L = 0 \<longrightarrow> d = INF_dist))"
          using r w dinf by auto
        have q: "queued st' \<subseteq> queued st \<union> (if width a \<noteq> 0 then {?L} else {})"
          using r w by auto
        show ?thesis
          by (rule engine_inv_scheduled [OF inv tl tid sch _ _ q h]) (use r in simp_all)
      qed
    qed
  qed
qed


definition queues_ok :: "Config \<Rightarrow> engine \<Rightarrow> bool" where
  "queues_ok cfg st \<longleftrightarrow>
     length (requests_miss st) = cfg_sets cfg \<and> length (requests_hit st) = cfg_sets cfg"

lemma slice_threads_inv:
  assumes "engine_inv hardware ths st" and "queues_ok cfg st" and "total_len ths < 2 ^ 32"
    and "slice_threads hardware cfg noise num_miss_requests warp tnums (mft, td, st) = Inr (mft', td', st')"
  shows "engine_inv hardware ths st' \<and> queues_ok cfg st'"
  using assms
proof (induction tnums arbitrary: mft td st)
  case Nil
  then show ?case by simp
next
  case (Cons tnum tnums)
  from Cons.prems(4) obtain brk m1 d1 st1 where
    tb: "thread_body hardware cfg noise num_miss_requests (warp ! tnum) tnum (mft, td, st) = Inr (brk, m1, d1, st1)"
    and rest: "if brk then (mft', td', st') = (m1, d1, st1)
               else slice_threads hardware cfg noise num_miss_requests warp tnums (m1, d1, st1) = Inr (mft', td', st')"
    by (auto split: sum.splits if_splits)
  have inv1: "engine_inv hardware ths st1"
    using Cons.prems(1,3) tb by (rule thread_body_inv)
  have ok1: "queues_ok cfg st1"
    using tb Cons.prems(2)
    by (auto simp: thread_body_def issue_access_def queues_ok_def Let_def
             split: if_splits sum.splits prod.splits)
  show ?case
  proof (cases brk)
    case True
    with rest inv1 ok1 show ?thesis by simp
  next
    case False
    with rest have "slice_threads hardware cfg noise num_miss_requests warp tnums (m1, d1, st1) = Inr (mft', td', st')"
      by simp
    from Cons.IH [OF inv1 ok1 Cons.prems(3) this] show ?thesis .
  qed
qed

lemma complete_requests_fields [simp]:
  "threads (complete_requests s rs st) = threads st"
  "distances (complete_requests s rs st) = distances st"
  "requests_miss (complete_requests s rs st) = requests_miss st"
  "requests_hit (complete_requests s rs st) = requests_hit st"
  "timestamp (complete_requests s rs st) = timestamp st"
  by (induction rs arbitrary: st; simp add: Let_def)+

lemma complete_requests_P:
  "P (complete_requests s rs st) L \<noteq> 0 \<Longrightarrow> P st L \<noteq> 0 \<or> L \<in> addr ` set rs"
proof (induction rs arbitrary: st)
  case Nil
  then show ?case by simp
next
  case (Cons r rs)
  let ?st1 = "if P st (addr r) \<noteq> 0
              then st\<lparr>B := (B st)[s := tree_unset (B st ! s) (P st (addr r))]\<rparr> else st"
  let ?st2 = "?st1\<lparr>P := (P ?st1)(addr r := set_counters ?st1 ! s),
                    B := (B ?st1)[s := tree_set (B ?st1 ! s) (set_counters ?st1 ! s)],
                    set_counters := (set_counters ?st1)[s := u32 (set_counters ?st1 ! s + 1)]\<rparr>"
  have e: "complete_requests s (r # rs) st = complete_requests s rs ?st2"
    by (simp add: Let_def)
  from Cons.prems have "P (complete_requests s rs ?st2) L \<noteq> 0" unfolding e .
  from Cons.IH [OF this] have "P ?st2 L \<noteq> 0 \<or> L \<in> addr ` set rs" .
  moreover have "P ?st2 L \<noteq> 0 \<Longrightarrow> P st L \<noteq> 0 \<or> L = addr r"
    by (auto split: if_splits)
  ultimately show ?case by auto
qed

lemma complete_requests_inv:
  assumes "engine_inv hardware ths st" and "addr ` set rs \<subseteq> issued_lines hardware (threads st)"
  shows "engine_inv hardware ths (complete_requests s rs st)"
    and "queued (complete_requests s rs st) = queued st"
proof -
  show q: "queued (complete_requests s rs st) = queued st"
    by (simp add: queued_def)
  have "L \<in> issued_lines hardware (threads st)" if "P (complete_requests s rs st) L \<noteq> 0" for L
    using complete_requests_P [OF that] assms unfolding engine_inv_def by blast
  then show "engine_inv hardware ths (complete_requests s rs st)"
    using assms(1) q unfolding engine_inv_def by simp
qed


lemma queued_replace_hit:
  assumes "s < length (requests_hit st)"
    and "\<And>t. set (request_list R' t) \<subseteq> set (request_list (requests_hit st ! s) t)"
  shows "queued (st\<lparr>requests_hit := (requests_hit st)[s := R']\<rparr>) \<subseteq> queued st"
proof
  fix x assume "x \<in> queued (st\<lparr>requests_hit := (requests_hit st)[s := R']\<rparr>)"
  then obtain r R t where x: "x = addr r" and r: "r \<in> set (request_list R t)"
    and R: "R \<in> set (requests_miss st) \<union> set ((requests_hit st)[s := R'])"
    by (auto simp: queued_def)
  from R have "R = R' \<or> R \<in> set (requests_miss st) \<union> set (requests_hit st)"
    using set_update_subset_insert [of "requests_hit st" s] by auto
  then show "x \<in> queued st"
  proof
    assume "R = R'"
    with r assms(2) have "r \<in> set (request_list (requests_hit st ! s) t)" by auto
    moreover have "requests_hit st ! s \<in> set (requests_hit st)" using assms(1) by simp
    ultimately show ?thesis using x by (auto simp: queued_def)
  next
    assume "R \<in> set (requests_miss st) \<union> set (requests_hit st)"
    then show ?thesis using x r by (auto simp: queued_def)
  qed
qed

lemma queued_replace_miss:
  assumes "s < length (requests_miss st)"
    and "\<And>t. set (request_list R' t) \<subseteq> set (request_list (requests_miss st ! s) t)"
  shows "queued (st\<lparr>requests_miss := (requests_miss st)[s := R']\<rparr>) \<subseteq> queued st"
proof
  fix x assume "x \<in> queued (st\<lparr>requests_miss := (requests_miss st)[s := R']\<rparr>)"
  then obtain r R t where x: "x = addr r" and r: "r \<in> set (request_list R t)"
    and R: "R \<in> set ((requests_miss st)[s := R']) \<union> set (requests_hit st)"
    by (auto simp: queued_def)
  from R have "R = R' \<or> R \<in> set (requests_miss st) \<union> set (requests_hit st)"
    using set_update_subset_insert [of "requests_miss st" s] by auto
  then show "x \<in> queued st"
  proof
    assume "R = R'"
    with r assms(2) have "r \<in> set (request_list (requests_miss st ! s) t)" by auto
    moreover have "requests_miss st ! s \<in> set (requests_miss st)" using assms(1) by simp
    ultimately show ?thesis using x by (auto simp: queued_def)
  next
    assume "R \<in> set (requests_miss st) \<union> set (requests_hit st)"
    then show ?thesis using x r by (auto simp: queued_def)
  qed
qed

lemma queued_hitI:
  assumes "s < length (requests_hit st)" and "r \<in> set (request_list (requests_hit st ! s) t)"
  shows "addr r \<in> queued st"
proof -
  have "requests_hit st ! s \<in> set (requests_miss st) \<union> set (requests_hit st)"
    using assms(1) by simp
  then show ?thesis unfolding queued_def using assms(2) by blast
qed

lemma queued_missI:
  assumes "s < length (requests_miss st)" and "r \<in> set (request_list (requests_miss st ! s) t)"
  shows "addr r \<in> queued st"
proof -
  have "requests_miss st ! s \<in> set (requests_miss st) \<union> set (requests_hit st)"
    using assms(1) by simp
  then show ?thesis unfolding queued_def using assms(2) by blast
qed

lemma process_requests_inv:
  assumes "engine_inv hardware ths st"
    and "addr ` set (request_list R time) \<subseteq> issued_lines hardware (threads st)"
    and "process_requests R time s st = (R', st1)"
  shows "engine_inv hardware ths st1" and "queued st1 = queued st"
    and "threads st1 = threads st" and "requests_miss st1 = requests_miss st"
    and "requests_hit st1 = requests_hit st" and "timestamp st1 = timestamp st"
    and "\<And>t. set (request_list R' t) \<subseteq> set (request_list R t)"
proof -
  have st1: "st1 = st \<or> st1 = complete_requests s (request_list R time) st"
    using assms(3) by (auto simp: process_requests_def get_requests_def Let_def split: if_splits)
  have R': "R' = R \<or> R' = R\<lparr>unique_requests :=
        fold (\<lambda>request u. u - {u32 (addr request)}) (request_list R time) (unique_requests R),
        request_list := (request_list R)(time := [])\<rparr>"
    using assms(3) by (auto simp: process_requests_def get_requests_def Let_def split: if_splits)
  from st1 show "engine_inv hardware ths st1" and "queued st1 = queued st"
    using complete_requests_inv [OF assms(1,2), of s] assms(1) by auto
  from st1 show "threads st1 = threads st" and "requests_miss st1 = requests_miss st"
    and "requests_hit st1 = requests_hit st" and "timestamp st1 = timestamp st" by auto
  from R' show "\<And>t. set (request_list R' t) \<subseteq> set (request_list R t)"
    by (auto split: if_splits)
qed

lemma drain_set_inv:
  assumes inv: "engine_inv hardware ths st" and ok: "queues_ok cfg st" and s: "s < cfg_sets cfg"
  shows "engine_inv hardware ths (drain_set s st) \<and> queues_ok cfg (drain_set s st)"
proof -
  obtain rh st1 where p1: "process_requests (requests_hit st ! s) (timestamp st) s st = (rh, st1)"
    by (cases "process_requests (requests_hit st ! s) (timestamp st) s st")
  let ?st2 = "st1\<lparr>requests_hit := (requests_hit st1)[s := rh]\<rparr>"
  obtain rm st3 where p2: "process_requests (requests_miss ?st2 ! s) (timestamp ?st2) s ?st2 = (rm, st3)"
    by (cases "process_requests (requests_miss ?st2 ! s) (timestamp ?st2) s ?st2")
  have d: "drain_set s st = st3\<lparr>requests_miss := (requests_miss st3)[s := rm]\<rparr>"
    using p1 p2 by (simp add: drain_set_def Let_def)
  from ok s have sh: "s < length (requests_hit st)" and sm: "s < length (requests_miss st)"
    by (simp_all add: queues_ok_def)
  from inv have qin: "queued st \<subseteq> issued_lines hardware (threads st)"
    by (simp add: engine_inv_def)
  have "addr ` set (request_list (requests_hit st ! s) (timestamp st)) \<subseteq> queued st"
    using sh by (auto intro: queued_hitI)
  then have a1: "addr ` set (request_list (requests_hit st ! s) (timestamp st))
      \<subseteq> issued_lines hardware (threads st)" using qin by blast
  note r1 = process_requests_inv [OF inv a1 p1]
  have "queued ?st2 \<subseteq> queued st1"
    using r1(5,7) sh by (intro queued_replace_hit) simp_all
  then have inv2: "engine_inv hardware ths ?st2"
    using engine_inv_same [OF r1(1), of ?st2] by simp
  from inv2 have qin2: "queued ?st2 \<subseteq> issued_lines hardware (threads ?st2)"
    by (simp add: engine_inv_def)
  have sm2: "s < length (requests_miss ?st2)" using r1(4) sm by simp
  then have "addr ` set (request_list (requests_miss ?st2 ! s) (timestamp ?st2)) \<subseteq> queued ?st2"
    by (auto intro: queued_missI)
  then have a2: "addr ` set (request_list (requests_miss ?st2 ! s) (timestamp ?st2))
      \<subseteq> issued_lines hardware (threads ?st2)" using qin2 by blast
  note r2 = process_requests_inv [OF inv2 a2 p2]
  have "queued (st3\<lparr>requests_miss := (requests_miss st3)[s := rm]\<rparr>) \<subseteq> queued st3"
    using r2(4,7) sm2 by (intro queued_replace_miss) simp_all
  then have "engine_inv hardware ths (drain_set s st)"
    unfolding d using engine_inv_same [OF r2(1), of "st3\<lparr>requests_miss := (requests_miss st3)[s := rm]\<rparr>"]
    by simp
  moreover have "queues_ok cfg (drain_set s st)"
    unfolding d using ok r1(4,5) r2(4,5) by (simp add: queues_ok_def)
  ultimately show ?thesis by simp
qed

lemma drain_sets_inv:
  assumes "engine_inv hardware ths st" and "queues_ok cfg st" and "\<forall>s \<in> set ss. s < cfg_sets cfg"
  shows "engine_inv hardware ths (fold drain_set ss st) \<and> queues_ok cfg (fold drain_set ss st)"
  using assms
proof (induction ss arbitrary: st)
  case Nil
  then show ?case by simp
next
  case (Cons s ss)
  from Cons.prems have "s < cfg_sets cfg" by simp
  from drain_set_inv [OF Cons.prems(1,2) this] Cons.prems(3) Cons.IH show ?case by simp
qed

lemma drain_inv:
  assumes "engine_inv hardware ths st" and "queues_ok cfg st"
  shows "engine_inv hardware ths (drain cfg st) \<and> queues_ok cfg (drain cfg st)"
  unfolding drain_def using assms by (rule drain_sets_inv) simp


lemma engine_inv_other_fields [simp]:
  "engine_inv hardware ths (st\<lparr>pool := p\<rparr>) = engine_inv hardware ths st"
  "engine_inv hardware ths (st\<lparr>timestamp := n\<rparr>) = engine_inv hardware ths st"
  by (simp_all add: engine_inv_def)

lemma queues_ok_other_fields [simp]:
  "queues_ok cfg (st\<lparr>pool := p\<rparr>) = queues_ok cfg st"
  "queues_ok cfg (st\<lparr>timestamp := n\<rparr>) = queues_ok cfg st"
  by (simp_all add: queues_ok_def)

lemma warp_portions_inv:
  assumes "engine_inv hardware ths st" and "queues_ok cfg st" and "total_len ths < 2 ^ 32"
    and "warp_portions hardware cfg noise num_miss_requests warp portions wps (mft, td, st) = Inr (mft', td', st')"
  shows "engine_inv hardware ths st' \<and> queues_ok cfg st'"
  using assms
proof (induction wps arbitrary: mft td st)
  case Nil
  then show ?case by simp
next
  case (Cons wp wps)
  from Cons.prems(4) obtain tnums m1 d1 st1 where
    sl: "slice_threads hardware cfg noise num_miss_requests warp tnums (mft, td, st) = Inr (m1, d1, st1)"
    and rest: "warp_portions hardware cfg noise num_miss_requests warp portions wps (m1, d1, drain cfg st1)
                 = Inr (mft', td', st')"
    by (auto simp: Let_def split: sum.splits)
  from slice_threads_inv [OF Cons.prems(1,2,3) sl]
  have "engine_inv hardware ths st1" and "queues_ok cfg st1" by simp_all
  then have "engine_inv hardware ths (drain cfg st1)" and "queues_ok cfg (drain cfg st1)"
    using drain_inv by blast+
  from Cons.IH [OF this Cons.prems(3) rest] show ?case .
qed

lemma warp_turn_inv:
  assumes inv: "engine_inv hardware ths st" and ok: "queues_ok cfg st" and tl: "total_len ths < 2 ^ 32"
    and wt: "warp_turn hardware cfg noise warps num_miss_requests st = Inr st1"
  shows "engine_inv hardware ths st1 \<and> queues_ok cfg st1"
proof -
  from wt obtain p wnum portions mft td st0 q where
    wp: "warp_portions hardware cfg noise num_miss_requests (warps ! wnum) portions
            [0..<portions] (0, 0, st\<lparr>pool := p\<rparr>) = Inr (mft, td, st0)"
    and s1: "st1 = st0\<lparr>pool := q\<rparr>"
    unfolding warp_turn_def Let_def
    by (auto split: if_splits sum.splits prod.splits)
  have "engine_inv hardware ths (st\<lparr>pool := p\<rparr>)" and "queues_ok cfg (st\<lparr>pool := p\<rparr>)"
    using inv ok by simp_all
  from warp_portions_inv [OF this tl wp] s1 show ?thesis by simp
qed

lemma pool_step_inv:
  assumes inv: "engine_inv hardware ths st" and ok: "queues_ok cfg st" and tl: "total_len ths < 2 ^ 32"
    and ps: "pool_step hardware cfg noise warps st = Inr st'"
  shows "engine_inv hardware ths st' \<and> queues_ok cfg st'"
proof -
  from ps obtain st1 where
    a: "st1 = st \<or> warp_turn hardware cfg noise warps (mshr_in_flight cfg st) st = Inr st1"
    and b: "st' = (drain cfg st1)\<lparr>pool := process_warps_in_flight (pool (drain cfg st1)),
                                  timestamp := u32 (timestamp (drain cfg st1) + 1)\<rparr>"
    unfolding pool_step_def Let_def by (auto split: if_splits sum.splits)
  from a have "engine_inv hardware ths st1 \<and> queues_ok cfg st1"
    using inv ok warp_turn_inv [OF inv ok tl] by auto
  then have "engine_inv hardware ths (drain cfg st1) \<and> queues_ok cfg (drain cfg st1)"
    using drain_inv by blast
  then show ?thesis unfolding b by simp
qed

lemma pool_loop_inv:
  assumes "engine_inv hardware ths st" and "queues_ok cfg st" and "total_len ths < 2 ^ 32"
    and "pool_loop fuel hardware cfg noise warps st = Some (Inr st')"
  shows "engine_inv hardware ths st'"
  using assms
proof (induction fuel arbitrary: st)
  case 0
  then show ?case by (simp add: pool_loop.simps)
next
  case (Suc fuel)
  from Suc.prems(4) have
    "st' = st \<or> (\<exists>st1. pool_step hardware cfg noise warps st = Inr st1 \<and>
                   pool_loop fuel hardware cfg noise warps st1 = Some (Inr st'))"
    by (auto simp: pool_loop.simps split: sum.splits bool.splits)
  then show ?case
  proof
    assume "st' = st"
    with Suc.prems(1) show ?thesis by simp
  next
    assume "\<exists>st1. pool_step hardware cfg noise warps st = Inr st1 \<and>
                   pool_loop fuel hardware cfg noise warps st1 = Some (Inr st')"
    then obtain st1 where ps: "pool_step hardware cfg noise warps st = Inr st1"
      and pl: "pool_loop fuel hardware cfg noise warps st1 = Some (Inr st')" by blast
    from pool_step_inv [OF Suc.prems(1,2,3) ps]
    have "engine_inv hardware ths st1" and "queues_ok cfg st1" by simp_all
    from Suc.IH [OF this Suc.prems(3) pl] show ?thesis .
  qed
qed

lemma window_start_inv:
  assumes "engine_inv hardware ths st"
  shows "engine_inv hardware ths (window_start cfg p st)" and "queues_ok cfg (window_start cfg p st)"
proof -
  have "queued (window_start cfg p st) = {}"
    by (auto simp: queued_def window_start_def Requests_init_def)
  then show "engine_inv hardware ths (window_start cfg p st)"
    using engine_inv_same [OF assms, of "window_start cfg p st"] by (simp add: window_start_def)
  show "queues_ok cfg (window_start cfg p st)"
    by (simp add: queues_ok_def window_start_def)
qed

lemma windows_inv:
  assumes "engine_inv hardware ths st" and "total_len ths < 2 ^ 32"
    and "windows fuel hardware cfg noise core blocks warps active_blocks snums st = Some (Inr st')"
  shows "engine_inv hardware ths st'"
  using assms
proof (induction snums arbitrary: st)
  case Nil
  then show ?case by simp
next
  case (Cons snum snums)
  from Cons.prems(3) obtain p st1 where
    pl: "pool_loop fuel hardware cfg noise warps (window_start cfg p st) = Some (Inr st1)"
    and rest: "windows fuel hardware cfg noise core blocks warps active_blocks snums st1 = Some (Inr st')"
    by (auto split: sum.splits option.splits)
  note w = window_start_inv [OF Cons.prems(1), of cfg p]
  from pool_loop_inv [OF w Cons.prems(2) pl] have "engine_inv hardware ths st1" .
  from Cons.IH [OF this Cons.prems(2) rest] show ?case .
qed

lemma thread_lines_reset [simp]: "thread_lines hardware (reset t) = {}"
  by (simp add: thread_lines_def reset_def)

lemma issued_lines_reset [simp]: "issued_lines hardware (map reset ths) = {}"
  by (induction ths) simp_all

lemma issued_count_reset [simp]: "issued_count (map reset ths) = 0"
  by (induction ths) (simp_all add: reset_def)

lemma engine_init_inv: "engine_inv hardware ths (engine_init cfg ths [] n)"
  by (auto simp: engine_inv_def engine_init_def queued_def hist_total_def inf_total_def reset_def)

text \<open>
  C5, as stated, fails: two warps read the same line; the second is issued before the request
  of the first completes, so both are recorded at distance \<open>INF\<close>: two compulsory misses for one
  line.
\<close>

theorem compulsory_unique_lines_counterexample:
  "reuse_distance 10 [0] [[0, 1]] [[0], [1]] [new_thread [read_access 0 4], new_thread [read_access 4 4]] [] 1 hw_example
     (cfg_one_mshr\<lparr>cfg_num_mshr := 64\<rparr>) no_noise =
   Some (Inr \<lparr>out_threads = [new_thread [read_access 0 4], new_thread [read_access 4 4]], out_distances = [(INF_dist, 2)],
               grand_total = 2, distances_total = 2\<rparr>) \<and>
   fst (classify_entries 1 (run_ways hw_example 1) [(INF_dist, 2)] (0, 0, 0)) = 2 \<and>
   card (touched_lines hw_example [new_thread [read_access 0 4], new_thread [read_access 4 4]]) = 1"
  by (simp add: eval_defs touched_lines_def run_ways_def)

text \<open>
  C5 (amended): for a trace of fewer than \<open>2 ^ 32\<close> accesses and an empty histogram at the start,
  when the run has finished, \<open>miss_compulsory\<close> (the frequencies at distance \<open>INF\<close>) is at least
  the number of unique line addresses issued during the run.
\<close>

theorem compulsory_at_least_issued_lines:
  assumes "reuse_distance_run fuel core blocks warps ths [] active_blocks hardware cfg noise
             = Some (Inr (n, st))"
    and "total_len ths < 2 ^ 32"
  shows "card (issued_lines hardware (threads st))
           \<le> fst (classify_entries i w (distances st) (0, 0, x)) \<and>
    reuse_distance fuel core blocks warps ths [] active_blocks hardware cfg noise
      = Some (Inr \<lparr>out_threads = map reset (threads st), out_distances = distances st,
                   grand_total = sum_u32 n, distances_total = sum_u32 (map snd (distances st))\<rparr>)"
proof -
  from assms(1) obtain snums where
    "windows fuel hardware cfg noise core blocks warps active_blocks snums
       (engine_init cfg ths [] n) = Some (Inr st)"
    by (auto simp: reuse_distance_run_def split: sum.splits if_splits option.splits)
  with engine_init_inv assms(2) have inv: "engine_inv hardware ths st"
    by (rule windows_inv)
  then have "issued_count (threads st) \<le> total_len (threads st)"
    by (intro issued_count_le) (simp add: engine_inv_def)
  also have "\<dots> = total_len ths" using inv by (simp add: engine_inv_def total_len_def)
  finally have "inf_total (distances st) < 2 ^ 32"
    using inv inf_total_le [of "distances st"] assms(2) by (simp add: engine_inv_def)
  then have "fst (classify_entries i w (distances st) (0, 0, x)) = inf_total (distances st)"
    by (simp add: classify_fst u32_def)
  then have "card (issued_lines hardware (threads st))
           \<le> fst (classify_entries i w (distances st) (0, 0, x))"
    using inv by (simp add: engine_inv_def)
  then show ?thesis using assms(1) by (simp add: reuse_distance_def)
qed

theorem compulsory_at_least_issued_lines_witness:
  "reuse_distance_run 10 [0] [[0, 1]] [[0], [1]] [new_thread [read_access 0 4], new_thread [read_access 4 4]]
       [] 1 hw_example (cfg_one_mshr\<lparr>cfg_num_mshr := 64\<rparr>) no_noise \<noteq> None \<and>
   \<not> isl (the (reuse_distance_run 10 [0] [[0, 1]] [[0], [1]]
       [new_thread [read_access 0 4], new_thread [read_access 4 4]]
       [] 1 hw_example (cfg_one_mshr\<lparr>cfg_num_mshr := 64\<rparr>) no_noise)) \<and>
   total_len [new_thread [read_access 0 4], new_thread [read_access 4 4]] < 2 ^ 32 \<and>
   card (issued_lines hw_example (threads (snd (projr (the (reuse_distance_run 10 [0] [[0, 1]] [[0], [1]]
       [new_thread [read_access 0 4], new_thread [read_access 4 4]]
       [] 1 hw_example (cfg_one_mshr\<lparr>cfg_num_mshr := 64\<rparr>) no_noise)))))) = 1 \<and>
   fst (classify_entries 1 (run_ways hw_example 1)
     (distances (snd (projr (the (reuse_distance_run 10 [0] [[0, 1]] [[0], [1]]
       [new_thread [read_access 0 4], new_thread [read_access 4 4]]
       [] 1 hw_example (cfg_one_mshr\<lparr>cfg_num_mshr := 64\<rparr>) no_noise))))) (0, 0, 0)) = 2"
proof -
  let ?r = "reuse_distance_run 10 [0] [[0, 1]] [[0], [1]]
       [new_thread [read_access 0 4], new_thread [read_access 4 4]]
       [] 1 hw_example (cfg_one_mshr\<lparr>cfg_num_mshr := 64\<rparr>) no_noise"
  have n: "?r \<noteq> None" by (simp add: eval_defs)
  have l: "\<not> isl (the ?r)" by (simp add: eval_defs)
  from n l have e: "?r = Some (Inr (fst (projr (the ?r)), snd (projr (the ?r))))"
    by (cases ?r) (auto simp: isl_def)
  have t: "total_len [new_thread [read_access 0 4], new_thread [read_access 4 4]] < 2 ^ 32"
    by (simp add: total_len_def new_thread_def)
  have c: "card (issued_lines hw_example (threads (snd (projr (the ?r))))) = 1"
    by (simp add: eval_defs issued_lines_def thread_lines_def)
  have f: "fst (classify_entries 1 (run_ways hw_example 1) (distances (snd (projr (the ?r)))) (0, 0, 0)) = 2"
    by (simp add: eval_defs run_ways_def)
  from compulsory_at_least_issued_lines [OF e t, of 1 "run_ways hw_example 1" 0] n l t c f
  show ?thesis by simp
qed

section \<open>Properties of the scheduler\<close>
















end
